theory Spec2Isabelle
  imports Complex_Main "HOL-Library.Word" "HOL-Library.Sublist"
begin

section \<open>The calculator of \<^verbatim>\<open>Calculator/main.cpp\<close>\<close>

text \<open>
  The program is a recursive-descent evaluator of arithmetic expressions: \<^verbatim>\<open>tokenizeNumbers\<close>
  (numbers, unary minus, parentheses), \<^verbatim>\<open>tokenizeMulDiv\<close> (\<^verbatim>\<open>*\<close> and \<^verbatim>\<open>/\<close>),
  \<^verbatim>\<open>tokenizeExpression\<close> (\<^verbatim>\<open>+\<close> and \<^verbatim>\<open>-\<close>) and the driver \<^verbatim>\<open>solve\<close>. All of
  them share the cursor \<^verbatim>\<open>const char*& eq\<close> and the counter \<^verbatim>\<open>int& countParenthesis\<close>.

  \<^item> The cursor is the list of the characters not yet consumed. The C string ends with
    a NUL, so reading \<^verbatim>\<open>*eq\<close> at the end gives the character 0: this is \<open>peek\<close>.
    \<^verbatim>\<open>eq++\<close> is \<open>tl\<close>; the program only advances over a character it has just
    compared with a character other than NUL, so it never moves past the end. (For the
    same reason a character 0 inside the list is never consumed: every function stops at
    it as it does at the end.)
  \<^item> The two by-reference parameters are passed in and returned.
  \<^item> Every \<^verbatim>\<open>assert\<close> that can fail is a branch returning an \<open>error\<close>.
  \<^item> \<^verbatim>\<open>int\<close> is a 32-bit word: \<^verbatim>\<open>divisor * 10\<close> wraps around after ten fractional
    digits (what the compiled program does; the language leaves this overflow undefined),
    and the value read from it is the signed one.
  \<^item> \<^verbatim>\<open>float\<close> and \<^verbatim>\<open>double\<close> are the type parameters \<open>'f\<close> and \<open>'d\<close>, and every
    operation the program performs on them is a field of the record \<open>arith\<close>: the model
    fixes which operation is applied to which operands in which order, and leaves rounding
    to the parameter.

  \<^verbatim>\<open>isOperator\<close> is called nowhere in the program and is left out.
\<close>

subsection \<open>Floating-point operations used by the program\<close>

record ('f, 'd) arith =
  f_zero :: "'f"  \<comment> \<open>the constant \<^verbatim>\<open>0.0\<close> stored in a \<^verbatim>\<open>float\<close>\<close>
  f_of_int :: "int \<Rightarrow> 'f"  \<comment> \<open>the conversion of an \<^verbatim>\<open>int\<close> operand to \<^verbatim>\<open>float\<close>\<close>
  f_add :: "'f \<Rightarrow> 'f \<Rightarrow> 'f"
  f_mul :: "'f \<Rightarrow> 'f \<Rightarrow> 'f"
  f_div :: "'f \<Rightarrow> 'f \<Rightarrow> 'f"
  f_neq :: "'f \<Rightarrow> 'f \<Rightarrow> bool"  \<comment> \<open>the comparison \<^verbatim>\<open>!=\<close> on \<^verbatim>\<open>float\<close>\<close>
  d_of_f :: "'f \<Rightarrow> 'd"  \<comment> \<open>\<^verbatim>\<open>float\<close> to \<^verbatim>\<open>double\<close>\<close>
  f_of_d :: "'d \<Rightarrow> 'f"  \<comment> \<open>\<^verbatim>\<open>double\<close> to \<^verbatim>\<open>float\<close>\<close>
  d_add :: "'d \<Rightarrow> 'd \<Rightarrow> 'd"
  d_sub :: "'d \<Rightarrow> 'd \<Rightarrow> 'd"

text \<open>
  An arithmetic without rounding, on the rationals, to run the model on concrete inputs.
  (Division by zero is \<open>0\<close> here; the program divides by \<^verbatim>\<open>divisor\<close>, which is zero
  only after 32 fractional digits, and by a right operand it has checked.)
\<close>

definition exact_arith :: "(rat, rat) arith" where
  "exact_arith = \<lparr> f_zero = 0, f_of_int = of_int, f_add = (+), f_mul = (*), f_div = (/),
     f_neq = (\<noteq>), d_of_f = id, f_of_d = id, d_add = (+), d_sub = (-) \<rparr>"

subsection \<open>Errors\<close>

text \<open>
  The failing assertions, named after what they detect:
  \<^verbatim>\<open>assert(eptr != eq)\<close> is \<open>MalformedNumber\<close>, \<^verbatim>\<open>assert(*eq == ')')\<close> and
  \<^verbatim>\<open>assert(pCount == 0)\<close> are \<open>UnbalancedParentheses\<close>, \<^verbatim>\<open>assert(second != 0)\<close> is
  \<open>DivisionByZero\<close>. (The assertions \<^verbatim>\<open>eq != NULL\<close> hold of every string.)
\<close>

datatype error = MalformedNumber | UnbalancedParentheses | DivisionByZero

subsection \<open>Characters\<close>

definition peek :: "string \<Rightarrow> char" where
  "peek eq = (case eq of [] \<Rightarrow> CHR 0x00 | c # _ \<Rightarrow> c)"

definition isDigit :: "char \<Rightarrow> bool" where
  "isDigit c = ((of_char c :: nat) \<ge> of_char CHR ''0'' \<and> (of_char c :: nat) \<le> of_char CHR ''9'')"

definition toDigit :: "char \<Rightarrow> int" where
  "toDigit c = int (of_char c) - int (of_char CHR ''0'')"

subsection \<open>\<^verbatim>\<open>makeFloat\<close>\<close>

text \<open>
  \<open>makeFloat_value\<close> is the expression of both \<^verbatim>\<open>return\<close> statements,
  \<^verbatim>\<open>sign * (beforeDecimal + (afterDecimal / divisor))\<close>. \<open>makeFloat_loop\<close> is the
  \<^verbatim>\<open>while\<close> loop with its local variables as arguments; it returns the value and the
  \<^verbatim>\<open>end\<close> pointer.
\<close>

definition makeFloat_value :: "('f, 'd) arith \<Rightarrow> int \<Rightarrow> 'f \<Rightarrow> 'f \<Rightarrow> 32 word \<Rightarrow> 'f" where
  "makeFloat_value A sign beforeDecimal afterDecimal divisor =
     f_mul A (f_of_int A sign)
       (f_add A beforeDecimal (f_div A afterDecimal (f_of_int A (sint divisor))))"

fun makeFloat_loop ::
  "('f, 'd) arith \<Rightarrow> int \<Rightarrow> 'f \<Rightarrow> 'f \<Rightarrow> 32 word \<Rightarrow> bool \<Rightarrow> string \<Rightarrow> 'f \<times> string" where
  "makeFloat_loop A sign beforeDecimal afterDecimal divisor isFraction [] =
     (makeFloat_value A sign beforeDecimal afterDecimal divisor, [])"
| "makeFloat_loop A sign beforeDecimal afterDecimal divisor isFraction (c # eq) =
     (if isDigit c then
        (if isFraction then
           makeFloat_loop A sign beforeDecimal
             (f_add A (f_mul A afterDecimal (f_of_int A 10)) (f_of_int A (toDigit c)))
             (divisor * 10) isFraction eq
         else
           makeFloat_loop A sign
             (f_add A (f_mul A beforeDecimal (f_of_int A 10)) (f_of_int A (toDigit c)))
             afterDecimal divisor isFraction eq)
      else if c = CHR ''.'' then
        (if isFraction then (makeFloat_value A sign beforeDecimal afterDecimal divisor, c # eq)
         else makeFloat_loop A sign beforeDecimal afterDecimal divisor True eq)
      else (makeFloat_value A sign beforeDecimal afterDecimal divisor, c # eq))"

definition makeFloat :: "('f, 'd) arith \<Rightarrow> string \<Rightarrow> 'f \<times> string" where
  "makeFloat A eq =
     (if peek eq = CHR ''-''
      then makeFloat_loop A (- 1) (f_zero A) (f_zero A) 1 False (tl eq)
      else makeFloat_loop A 1 (f_zero A) (f_zero A) 1 False eq)"

subsection \<open>The three grammar levels\<close>

text \<open>\<^verbatim>\<open>while (*eq == ' ') eq++;\<close>\<close>

fun skip_spaces :: "string \<Rightarrow> string" where
  "skip_spaces [] = []"
| "skip_spaces (c # eq) = (if c = CHR '' '' then skip_spaces eq else c # eq)"

text \<open>
  A call returns an error, or its value with the cursor and the counter it leaves. The two
  \<^verbatim>\<open>while (true)\<close> loops are the functions \<open>tokenizeMulDiv_loop\<close> and
  \<open>tokenizeExpression_loop\<close>, whose first argument is the local \<^verbatim>\<open>first\<close>
  (a \<^verbatim>\<open>float\<close> in \<^verbatim>\<open>tokenizeMulDiv\<close>, a \<^verbatim>\<open>double\<close> in \<^verbatim>\<open>tokenizeExpression\<close>, which
  returns it as a \<^verbatim>\<open>float\<close>). \<^verbatim>\<open>eptr != eq\<close> compares two pointers into the same
  string, \<^verbatim>\<open>eptr\<close> not before \<^verbatim>\<open>eq\<close>: they differ exactly when the remaining
  characters do.
\<close>

type_synonym 'v parsed = "error + ('v \<times> string \<times> 32 word)"

function tokenizeNumbers :: "('f, 'd) arith \<Rightarrow> string \<Rightarrow> 32 word \<Rightarrow> 'f parsed"
  and tokenizeMulDiv :: "('f, 'd) arith \<Rightarrow> string \<Rightarrow> 32 word \<Rightarrow> 'f parsed"
  and tokenizeMulDiv_loop :: "('f, 'd) arith \<Rightarrow> 'f \<Rightarrow> string \<Rightarrow> 32 word \<Rightarrow> 'f parsed"
  and tokenizeExpression :: "('f, 'd) arith \<Rightarrow> string \<Rightarrow> 32 word \<Rightarrow> 'f parsed"
  and tokenizeExpression_loop :: "('f, 'd) arith \<Rightarrow> 'd \<Rightarrow> string \<Rightarrow> 32 word \<Rightarrow> 'f parsed"
where
  "tokenizeNumbers A eq countParenthesis =
     (let eq1 = skip_spaces eq;
          hasNegative = (peek eq1 = CHR ''-'');
          eq2 = (if hasNegative then tl eq1 else eq1)
      in if peek eq2 = CHR ''(''
         then (case tokenizeExpression A (tl eq2) (countParenthesis + 1) of
                 Inl e \<Rightarrow> Inl e
               | Inr (calculated, eq3, cp3) \<Rightarrow>
                   if peek eq3 \<noteq> CHR '')'' then Inl UnbalancedParentheses
                   else Inr (if hasNegative then f_mul A calculated (f_of_int A (- 1)) else calculated,
                             tl eq3, cp3 - 1))
         else (case makeFloat A eq2 of
                 (toNumber, eptr) \<Rightarrow>
                   if eptr = eq2 then Inl MalformedNumber
                   else Inr (if hasNegative then f_mul A toNumber (f_of_int A (- 1)) else toNumber,
                             eptr, countParenthesis)))"
| "tokenizeMulDiv A eq countParenthesis =
     (case tokenizeNumbers A eq countParenthesis of
        Inl e \<Rightarrow> Inl e
      | Inr (first, eq1, cp1) \<Rightarrow> tokenizeMulDiv_loop A first eq1 cp1)"
| "tokenizeMulDiv_loop A first eq countParenthesis =
     (let eq1 = skip_spaces eq;
          opr = peek eq1
      in if opr \<noteq> CHR ''*'' \<and> opr \<noteq> CHR ''/'' then Inr (first, eq1, countParenthesis)
         else (case tokenizeNumbers A (tl eq1) countParenthesis of
                 Inl e \<Rightarrow> Inl e
               | Inr (second, eq2, cp2) \<Rightarrow>
                   if opr \<noteq> CHR ''/'' then tokenizeMulDiv_loop A (f_mul A first second) eq2 cp2
                   else if \<not> f_neq A second (f_of_int A 0) then Inl DivisionByZero
                   else tokenizeMulDiv_loop A (f_div A first second) eq2 cp2))"
| "tokenizeExpression A eq countParenthesis =
     (case tokenizeMulDiv A eq countParenthesis of
        Inl e \<Rightarrow> Inl e
      | Inr (first, eq1, cp1) \<Rightarrow> tokenizeExpression_loop A (d_of_f A first) eq1 cp1)"
| "tokenizeExpression_loop A first eq countParenthesis =
     (let eq1 = skip_spaces eq;
          opr = peek eq1
      in if opr \<noteq> CHR ''+'' \<and> opr \<noteq> CHR ''-'' then Inr (f_of_d A first, eq1, countParenthesis)
         else (case tokenizeMulDiv A (tl eq1) countParenthesis of
                 Inl e \<Rightarrow> Inl e
               | Inr (second, eq2, cp2) \<Rightarrow>
                   if opr = CHR ''+''
                   then tokenizeExpression_loop A (d_add A first (d_of_f A second)) eq2 cp2
                   else tokenizeExpression_loop A (d_sub A first (d_of_f A second)) eq2 cp2))"
  by pat_completeness auto

text \<open>
  Termination: a successful call of \<open>tokenizeNumbers\<close>, \<open>tokenizeMulDiv\<close> or
  \<open>tokenizeExpression\<close> leaves a proper suffix of its cursor, a loop leaves a suffix.
\<close>

lemma suffix_skip_spaces: "suffix (skip_spaces eq) eq"
  by (induction eq) (auto simp: suffix_Cons)

lemma suffix_makeFloat_loop:
  "suffix (snd (makeFloat_loop A sign b a dv fr eq)) eq"
  by (induction eq arbitrary: b a dv fr) (auto simp: suffix_Cons)

lemma suffix_makeFloat: "suffix (snd (makeFloat A eq)) eq"
  unfolding makeFloat_def
  by (auto intro: suffix_order.trans[OF suffix_makeFloat_loop suffix_tl] suffix_makeFloat_loop)

lemma suffix_tl_skip: "suffix (tl (skip_spaces eq)) eq"
  by (rule suffix_order.trans[OF suffix_tl suffix_skip_spaces])

lemma tok_suffix_dom:
  "tokenizeNumbers_tokenizeMulDiv_tokenizeMulDiv_loop_tokenizeExpression_tokenizeExpression_loop_dom
     (Inl (Inl (A, eq, cp))) \<Longrightarrow>
   tokenizeNumbers A eq cp = Inr (v, eq', cp') \<Longrightarrow> strict_suffix eq' eq"
  "tokenizeNumbers_tokenizeMulDiv_tokenizeMulDiv_loop_tokenizeExpression_tokenizeExpression_loop_dom
     (Inl (Inr (A, eq, cp))) \<Longrightarrow>
   tokenizeMulDiv A eq cp = Inr (v, eq', cp') \<Longrightarrow> strict_suffix eq' eq"
  "tokenizeNumbers_tokenizeMulDiv_tokenizeMulDiv_loop_tokenizeExpression_tokenizeExpression_loop_dom
     (Inr (Inl (A, first, eq, cp))) \<Longrightarrow>
   tokenizeMulDiv_loop A first eq cp = Inr (v, eq', cp') \<Longrightarrow> suffix eq' eq"
  "tokenizeNumbers_tokenizeMulDiv_tokenizeMulDiv_loop_tokenizeExpression_tokenizeExpression_loop_dom
     (Inr (Inr (Inl (A, eq, cp)))) \<Longrightarrow>
   tokenizeExpression A eq cp = Inr (v, eq', cp') \<Longrightarrow> strict_suffix eq' eq"
  "tokenizeNumbers_tokenizeMulDiv_tokenizeMulDiv_loop_tokenizeExpression_tokenizeExpression_loop_dom
     (Inr (Inr (Inr (A, dfirst, eq, cp)))) \<Longrightarrow>
   tokenizeExpression_loop A dfirst eq cp = Inr (v, eq', cp') \<Longrightarrow> suffix eq' eq"
proof (induct A eq cp and A eq cp and A first eq cp and A eq cp and A dfirst eq cp
    arbitrary: v eq' cp' and v eq' cp' and v eq' cp' and v eq' cp' and v eq' cp'
    rule: tokenizeNumbers_tokenizeMulDiv_tokenizeMulDiv_loop_tokenizeExpression_tokenizeExpression_loop.pinduct)
  case (1 A eq countParenthesis)
  define eq1 where "eq1 = skip_spaces eq"
  define eq2 where "eq2 = (if peek eq1 = CHR ''-'' then tl eq1 else eq1)"
  have s2: "suffix eq2 eq"
    unfolding eq2_def eq1_def using suffix_skip_spaces suffix_tl_skip by auto
  show ?case
  proof (cases "peek eq2 = CHR ''(''")
    case True
    then have ne: "peek eq2 \<noteq> CHR 0x00" by simp
    from "1.prems" True obtain calc eq3 cp3 where
      te: "tokenizeExpression A (tl eq2) (countParenthesis + 1) = Inr (calc, eq3, cp3)"
      and e: "eq' = tl eq3"
      unfolding tokenizeNumbers.psimps[OF "1.hyps"(1)] Let_def eq1_def[symmetric] eq2_def[symmetric]
      by (auto split: sum.splits if_splits)
    from "1.hyps"(2)[OF eq1_def refl eq2_def True te]
    have "strict_suffix eq3 (tl eq2)" .
    with suffix_tl[of eq3] suffix_tl[of eq2] s2 e show ?thesis
      by (meson suffix_order.dual_order.strict_trans1 suffix_order.dual_order.strict_trans2)
  next
    case False
    from "1.prems" False have e: "eq' = snd (makeFloat A eq2)" and n: "eq' \<noteq> eq2"
      unfolding tokenizeNumbers.psimps[OF "1.hyps"(1)] Let_def eq1_def[symmetric] eq2_def[symmetric]
      by (auto split: prod.splits if_splits)
    with suffix_makeFloat[of A eq2] have "strict_suffix eq' eq2"
      by (simp add: strict_suffix_def)
    with s2 show ?thesis
      by (meson suffix_order.dual_order.strict_trans1 suffix_order.dual_order.strict_trans2)
  qed
next
  case (2 A eq countParenthesis)
  from "2.prems" obtain first eq1 cp1 where
    tn: "tokenizeNumbers A eq countParenthesis = Inr (first, eq1, cp1)"
    and l: "tokenizeMulDiv_loop A first eq1 cp1 = Inr (v, eq', cp')"
    unfolding tokenizeMulDiv.psimps[OF "2.hyps"(1)]
    by (auto split: sum.splits)
  from "2.hyps"(2)[OF tn] have a: "strict_suffix eq1 eq" .
  from "2.hyps"(3)[OF tn refl refl l] have "suffix eq' eq1" .
  with a show ?case
    by (meson suffix_order.dual_order.strict_trans1 suffix_order.dual_order.strict_trans2)
next
  case (3 A first eq countParenthesis)
  define eq1 where "eq1 = skip_spaces eq"
  have s1: "suffix eq1 eq" unfolding eq1_def by (rule suffix_skip_spaces)
  show ?case
  proof (cases "peek eq1 \<noteq> CHR ''*'' \<and> peek eq1 \<noteq> CHR ''/''")
    case True
    with "3.prems" have "eq' = eq1"
      unfolding tokenizeMulDiv_loop.psimps[OF "3.hyps"(1)] Let_def eq1_def[symmetric]
      by auto
    with s1 show ?thesis by simp
  next
    case False
    with "3.prems" obtain second eq2 cp2 where
      tn: "tokenizeNumbers A (tl eq1) countParenthesis = Inr (second, eq2, cp2)"
      unfolding tokenizeMulDiv_loop.psimps[OF "3.hyps"(1)] Let_def eq1_def[symmetric]
      by (auto split: sum.splits)
    from "3.hyps"(2)[OF eq1_def refl False tn] have a: "strict_suffix eq2 (tl eq1)" .
    have "suffix eq' eq2"
    proof (cases "peek eq1 \<noteq> CHR ''/''")
      case True
      with "3.prems" False tn have "tokenizeMulDiv_loop A (f_mul A first second) eq2 cp2 = Inr (v, eq', cp')"
        unfolding tokenizeMulDiv_loop.psimps[OF "3.hyps"(1)] Let_def eq1_def[symmetric]
        by auto
      from "3.hyps"(3)[OF eq1_def refl False tn refl refl True this] show ?thesis .
    next
      case F2: False
      with "3.prems" False tn have nz: "\<not> \<not> f_neq A second (f_of_int A 0)" and
        "tokenizeMulDiv_loop A (f_div A first second) eq2 cp2 = Inr (v, eq', cp')"
        unfolding tokenizeMulDiv_loop.psimps[OF "3.hyps"(1)] Let_def eq1_def[symmetric]
        by (auto split: if_splits)
      from "3.hyps"(4)[OF eq1_def refl False tn refl refl F2 nz this(2)] show ?thesis .
    qed
    with a suffix_tl[of eq1] s1 show ?thesis
      by (meson strict_suffix_def suffix_order.trans)
  qed
next
  case (4 A eq countParenthesis)
  from "4.prems" obtain first eq1 cp1 where
    tn: "tokenizeMulDiv A eq countParenthesis = Inr (first, eq1, cp1)"
    and l: "tokenizeExpression_loop A (d_of_f A first) eq1 cp1 = Inr (v, eq', cp')"
    unfolding tokenizeExpression.psimps[OF "4.hyps"(1)]
    by (auto split: sum.splits)
  from "4.hyps"(2)[OF tn] have a: "strict_suffix eq1 eq" .
  from "4.hyps"(3)[OF tn refl refl l] have "suffix eq' eq1" .
  with a show ?case
    by (meson suffix_order.dual_order.strict_trans1 suffix_order.dual_order.strict_trans2)
next
  case (5 A first eq countParenthesis)
  define eq1 where "eq1 = skip_spaces eq"
  have s1: "suffix eq1 eq" unfolding eq1_def by (rule suffix_skip_spaces)
  show ?case
  proof (cases "peek eq1 \<noteq> CHR ''+'' \<and> peek eq1 \<noteq> CHR ''-''")
    case True
    with "5.prems" have "eq' = eq1"
      unfolding tokenizeExpression_loop.psimps[OF "5.hyps"(1)] Let_def eq1_def[symmetric]
      by auto
    with s1 show ?thesis by simp
  next
    case False
    with "5.prems" obtain second eq2 cp2 where
      tn: "tokenizeMulDiv A (tl eq1) countParenthesis = Inr (second, eq2, cp2)"
      unfolding tokenizeExpression_loop.psimps[OF "5.hyps"(1)] Let_def eq1_def[symmetric]
      by (auto split: sum.splits)
    from "5.hyps"(2)[OF eq1_def refl False tn] have a: "strict_suffix eq2 (tl eq1)" .
    have "suffix eq' eq2"
    proof (cases "peek eq1 = CHR ''+''")
      case True
      with "5.prems" False tn have "tokenizeExpression_loop A (d_add A first (d_of_f A second)) eq2 cp2 = Inr (v, eq', cp')"
        unfolding tokenizeExpression_loop.psimps[OF "5.hyps"(1)] Let_def eq1_def[symmetric]
        by auto
      from "5.hyps"(3)[OF eq1_def refl False tn refl refl True this] show ?thesis .
    next
      case F2: False
      with "5.prems" False tn have
        "tokenizeExpression_loop A (d_sub A first (d_of_f A second)) eq2 cp2 = Inr (v, eq', cp')"
        unfolding tokenizeExpression_loop.psimps[OF "5.hyps"(1)] Let_def eq1_def[symmetric]
        by (auto split: if_splits)
      from "5.hyps"(4)[OF eq1_def refl False tn refl refl F2 this] show ?thesis .
    qed
    with a suffix_tl[of eq1] s1 show ?thesis
      by (meson strict_suffix_def suffix_order.trans)
  qed
qed


lemma peek_nonempty: "peek eq = c \<Longrightarrow> c \<noteq> CHR 0x00 \<Longrightarrow> 0 < length eq"
  by (cases eq) (auto simp: peek_def)

lemma length_skip_spaces: "length (skip_spaces eq) \<le> length eq"
  by (rule suffix_length_le[OF suffix_skip_spaces])

lemmas tok_length_dom =
  tok_suffix_dom(1)[THEN suffix_length_less]
  tok_suffix_dom(2)[THEN suffix_length_less]

lemma tok_all_dom:
  "All tokenizeNumbers_tokenizeMulDiv_tokenizeMulDiv_loop_tokenizeExpression_tokenizeExpression_loop_dom"
proof (rule "tokenizeNumbers_tokenizeMulDiv_tokenizeMulDiv_loop_tokenizeExpression_tokenizeExpression_loop.termination"[where R = "measure (\<lambda>x. case x of
     Inl (Inl (A, eq, cp)) \<Rightarrow> 3 * length eq
   | Inl (Inr (A, eq, cp)) \<Rightarrow> 3 * length eq + 1
   | Inr (Inl (A, first, eq, cp)) \<Rightarrow> 3 * length eq
   | Inr (Inr (Inl (A, eq, cp))) \<Rightarrow> 3 * length eq + 2
   | Inr (Inr (Inr (A, first, eq, cp))) \<Rightarrow> 3 * length eq)"],
    goal_cases)
  case 1
  show ?case by simp
next
  case (2 A eq countParenthesis x xa xb)
  from 2(4) have "0 < length xb" by (rule peek_nonempty) simp
  moreover have "length xb \<le> length eq"
    using 2 length_skip_spaces[of eq] by (auto simp: le_diff_conv)
  ultimately show ?case by (cases xb) auto
next
  case (3 A eq countParenthesis)
  show ?case by simp
next
  case (4 A eq countParenthesis b x y xa ya)
  from tok_length_dom(1)[OF 4(4)] 4(1,2,3) show ?case by auto
next
  case (5 A first eq countParenthesis x xa)
  from 5(2,3) have "0 < length x" by (cases x) (auto simp: peek_def)
  moreover have "length x \<le> length eq" unfolding 5(1) by (rule length_skip_spaces)
  ultimately show ?case by (cases x) auto
next
  case (6 A first eq countParenthesis x xa b xb y xc ya)
  from tok_length_dom(1)[OF 6(8)] 6(1,4,5,6) length_skip_spaces[of eq] show ?case by auto
next
  case (7 A first eq countParenthesis x xa b xb y xc ya)
  from tok_length_dom(1)[OF 7(9)] 7(1,4,5,6) length_skip_spaces[of eq] show ?case by auto
next
  case (8 A eq countParenthesis)
  show ?case by simp
next
  case (9 A eq countParenthesis b x y xa ya)
  from tok_length_dom(2)[OF 9(4)] 9(1,2,3) show ?case by auto
next
  case (10 A first eq countParenthesis x xa)
  from 10(2,3) have "0 < length x" by (cases x) (auto simp: peek_def)
  moreover have "length x \<le> length eq" unfolding 10(1) by (rule length_skip_spaces)
  ultimately show ?case by (cases x) auto
next
  case (11 A first eq countParenthesis x xa b xb y xc ya)
  from tok_length_dom(2)[OF 11(8)] 11(1,4,5,6) length_skip_spaces[of eq] show ?case by auto
next
  case (12 A first eq countParenthesis x xa b xb y xc ya)
  from tok_length_dom(2)[OF 12(8)] 12(1,4,5,6) length_skip_spaces[of eq] show ?case by auto
qed

termination tokenizeNumbers
  by (rule tok_all_dom)

lemmas tok_suffix =
  tok_suffix_dom(1)[OF tok_all_dom[THEN spec]] tok_suffix_dom(2)[OF tok_all_dom[THEN spec]]
  tok_suffix_dom(3)[OF tok_all_dom[THEN spec]] tok_suffix_dom(4)[OF tok_all_dom[THEN spec]]
  tok_suffix_dom(5)[OF tok_all_dom[THEN spec]]

declare tokenizeNumbers.simps [simp del] tokenizeMulDiv.simps [simp del]
  tokenizeMulDiv_loop.simps [simp del] tokenizeExpression.simps [simp del]
  tokenizeExpression_loop.simps [simp del]

subsection \<open>The driver\<close>

definition solve :: "('f, 'd) arith \<Rightarrow> string \<Rightarrow> error + 'f" where
  "solve A eq =
     (case tokenizeExpression A eq 0 of
        Inl e \<Rightarrow> Inl e
      | Inr (answer, eq', pCount) \<Rightarrow>
          if pCount \<noteq> 0 then Inl UnbalancedParentheses else Inr answer)"

subsection \<open>Inputs the properties speak about\<close>

text \<open>
  An unsigned numeric literal: digits with at most one decimal point, and at least one
  character. (A leading minus sign is left to the unary minus of \<open>tokenizeNumbers\<close>.)
\<close>

definition literal :: "string \<Rightarrow> bool" where
  "literal s \<longleftrightarrow>
     s \<noteq> [] \<and> list_all (\<lambda>c. isDigit c \<or> c = CHR ''.'') s \<and> count_list s CHR ''.'' \<le> 1"

text \<open>
  \<open>chain [(o\<^sub>1, s\<^sub>1), \<dots>, (o\<^sub>n, s\<^sub>n)]\<close> is the text \<open>o\<^sub>1 s\<^sub>1 \<dots> o\<^sub>n s\<^sub>n\<close>: operators each followed by
  its right operand.
\<close>

fun chain :: "(char \<times> string) list \<Rightarrow> string" where
  "chain [] = []"
| "chain ((opr, s) # xs) = opr # s @ chain xs"

section \<open>Properties\<close>

subsection \<open>Reading characters and single steps of the loops\<close>

lemma isDigit_simps [simp]:
  "\<not> isDigit CHR ''.''" "\<not> isDigit CHR '' ''" "\<not> isDigit CHR ''-''" "\<not> isDigit CHR ''(''"
  "\<not> isDigit CHR '')''" "\<not> isDigit CHR ''+''" "\<not> isDigit CHR ''*''" "\<not> isDigit CHR ''/''"
  "\<not> isDigit CHR 0x00"
  by (simp_all add: isDigit_def)

lemma peek_simps [simp]: "peek [] = CHR 0x00" "peek (c # eq) = c"
  by (simp_all add: peek_def)

lemma skip_spaces_id: "peek eq \<noteq> CHR '' '' \<Longrightarrow> skip_spaces eq = eq"
  by (cases eq) simp_all

lemma peek_skip_spaces [simp]: "peek (skip_spaces eq) \<noteq> CHR '' ''"
  by (induction eq) simp_all

lemma skip_spaces_idem [simp]: "skip_spaces (skip_spaces eq) = skip_spaces eq"
  by (simp add: skip_spaces_id)

lemma tokenizeNumbers_skip: "tokenizeNumbers A (skip_spaces eq) cp = tokenizeNumbers A eq cp"
  by (simp add: tokenizeNumbers.simps[of A "skip_spaces eq"] tokenizeNumbers.simps[of A eq])

lemma tokenizeMulDiv_skip: "tokenizeMulDiv A (skip_spaces eq) cp = tokenizeMulDiv A eq cp"
  by (simp add: tokenizeMulDiv.simps[of A "skip_spaces eq"] tokenizeMulDiv.simps[of A eq]
      tokenizeNumbers_skip)

lemma tokenizeMulDiv_loop_stop:
  "peek (skip_spaces eq) \<noteq> CHR ''*'' \<Longrightarrow> peek (skip_spaces eq) \<noteq> CHR ''/'' \<Longrightarrow>
   tokenizeMulDiv_loop A first eq cp = Inr (first, skip_spaces eq, cp)"
  by (subst tokenizeMulDiv_loop.simps) (simp add: Let_def)

lemma tokenizeMulDiv_loop_mul:
  "peek (skip_spaces eq) = CHR ''*'' \<Longrightarrow>
   tokenizeNumbers A (tl (skip_spaces eq)) cp = Inr (second, eq2, cp2) \<Longrightarrow>
   tokenizeMulDiv_loop A first eq cp = tokenizeMulDiv_loop A (f_mul A first second) eq2 cp2"
  by (subst tokenizeMulDiv_loop.simps) (simp add: Let_def)

lemma tokenizeMulDiv_loop_div:
  "peek (skip_spaces eq) = CHR ''/'' \<Longrightarrow>
   tokenizeNumbers A (tl (skip_spaces eq)) cp = Inr (second, eq2, cp2) \<Longrightarrow>
   tokenizeMulDiv_loop A first eq cp =
     (if \<not> f_neq A second (f_of_int A 0) then Inl DivisionByZero
      else tokenizeMulDiv_loop A (f_div A first second) eq2 cp2)"
  by (subst tokenizeMulDiv_loop.simps) (simp add: Let_def)

lemma tokenizeExpression_loop_stop:
  "peek (skip_spaces eq) \<noteq> CHR ''+'' \<Longrightarrow> peek (skip_spaces eq) \<noteq> CHR ''-'' \<Longrightarrow>
   tokenizeExpression_loop A first eq cp = Inr (f_of_d A first, skip_spaces eq, cp)"
  by (subst tokenizeExpression_loop.simps) (simp add: Let_def)

lemma tokenizeExpression_loop_add:
  "peek (skip_spaces eq) = CHR ''+'' \<Longrightarrow>
   tokenizeMulDiv A (tl (skip_spaces eq)) cp = Inr (second, eq2, cp2) \<Longrightarrow>
   tokenizeExpression_loop A first eq cp =
     tokenizeExpression_loop A (d_add A first (d_of_f A second)) eq2 cp2"
  by (subst tokenizeExpression_loop.simps) (simp add: Let_def)

lemma tokenizeExpression_loop_sub:
  "peek (skip_spaces eq) = CHR ''-'' \<Longrightarrow>
   tokenizeMulDiv A (tl (skip_spaces eq)) cp = Inr (second, eq2, cp2) \<Longrightarrow>
   tokenizeExpression_loop A first eq cp =
     tokenizeExpression_loop A (d_sub A first (d_of_f A second)) eq2 cp2"
  by (subst tokenizeExpression_loop.simps) (simp add: Let_def)

text \<open>
  Scanning a literal that is followed by a character ending the number (not a digit, and
  a decimal point only if one was read already) consumes exactly the literal.
\<close>

lemma makeFloat_loop_append:
  "list_all (\<lambda>c. isDigit c \<or> c = CHR ''.'') s \<Longrightarrow> (fr \<longrightarrow> CHR ''.'' \<notin> set s) \<Longrightarrow>
   count_list s CHR ''.'' \<le> 1 \<Longrightarrow> \<not> isDigit (peek rest) \<Longrightarrow>
   (peek rest = CHR ''.'' \<longrightarrow> fr \<or> CHR ''.'' \<in> set s) \<Longrightarrow>
   makeFloat_loop A sign b a dv fr (s @ rest) = (fst (makeFloat_loop A sign b a dv fr s), rest)"
proof (induction s arbitrary: b a dv fr)
  case Nil
  then show ?case by (cases rest) auto
next
  case (Cons c s)
  show ?case
  proof (cases "isDigit c")
    case True
    then have "c \<noteq> CHR ''.''" by auto
    with Cons.prems True show ?thesis
      by (auto simp: Cons.IH)
  next
    case False
    with Cons.prems have c: "c = CHR ''.''" and nf: "\<not> fr" by auto
    from Cons.prems c have "CHR ''.'' \<notin> set s"
      by (auto simp: count_list_0_iff)
    with Cons.prems c nf show ?thesis
      by (auto simp: Cons.IH)
  qed
qed

lemma literal_Cons: "literal s \<Longrightarrow> \<exists>c cs. s = c # cs \<and> (isDigit c \<or> c = CHR ''.'')"
  by (cases s) (auto simp: literal_def)

lemma makeFloat_literal:
  assumes "literal s" "\<not> isDigit (peek rest)" "peek rest \<noteq> CHR ''.''"
  shows "makeFloat A (s @ rest) = (fst (makeFloat A s), rest)"
proof -
  from literal_Cons[OF assms(1)] obtain c cs where s: "s = c # cs" and c: "isDigit c \<or> c = CHR ''.''"
    by blast
  then have "c \<noteq> CHR ''-''" by auto
  then have "makeFloat A (s @ rest) = makeFloat_loop A 1 (f_zero A) (f_zero A) 1 False (s @ rest)"
    and "makeFloat A s = makeFloat_loop A 1 (f_zero A) (f_zero A) 1 False s"
    by (simp_all add: makeFloat_def s)
  with assms show ?thesis
    by (simp add: literal_def makeFloat_loop_append)
qed

lemma tokenizeNumbers_literal:
  assumes "literal s" "\<not> isDigit (peek rest)" "peek rest \<noteq> CHR ''.''"
  shows "tokenizeNumbers A (s @ rest) cp = Inr (fst (makeFloat A s), rest, cp)"
proof -
  from literal_Cons[OF assms(1)] obtain c cs where s: "s = c # cs" and c: "isDigit c \<or> c = CHR ''.''"
    by blast
  then have "peek (s @ rest) \<noteq> CHR ''-''" "peek (s @ rest) \<noteq> CHR '' ''"
    "peek (s @ rest) \<noteq> CHR ''(''" by auto
  moreover have "rest \<noteq> s @ rest" using s by simp
  ultimately show ?thesis
    by (subst tokenizeNumbers.simps)
      (simp add: Let_def makeFloat_literal[OF assms] skip_spaces_id)
qed


lemma tokenizeNumbers_space: "tokenizeNumbers A (CHR '' '' # eq) cp = tokenizeNumbers A eq cp"
  using tokenizeNumbers_skip[of A "CHR '' '' # eq" cp] tokenizeNumbers_skip[of A eq cp] by simp

lemma tokenizeMulDiv_space: "tokenizeMulDiv A (CHR '' '' # eq) cp = tokenizeMulDiv A eq cp"
  using tokenizeMulDiv_skip[of A "CHR '' '' # eq" cp] tokenizeMulDiv_skip[of A eq cp] by simp

lemma tokenizeMulDiv_literal:
  assumes "literal s" "\<not> isDigit (peek rest)" "peek rest \<noteq> CHR ''.''"
    "peek (skip_spaces rest) \<noteq> CHR ''*''" "peek (skip_spaces rest) \<noteq> CHR ''/''"
  shows "tokenizeMulDiv A (s @ rest) cp = Inr (fst (makeFloat A s), skip_spaces rest, cp)"
  by (subst tokenizeMulDiv.simps)
    (simp add: tokenizeNumbers_literal[OF assms(1,2,3)] tokenizeMulDiv_loop_stop[OF assms(4,5)])

lemma peek_chain:
  assumes "\<forall>(opr, s) \<in> set xs. opr \<in> S" "CHR 0x00 \<notin> S"
  shows "peek (chain xs) \<in> S \<or> chain xs = []"
  using assms by (cases xs) auto

lemma tokenizeExpression_loop_chain:
  assumes "\<forall>(opr, s) \<in> set xs. (opr = CHR ''+'' \<or> opr = CHR ''-'') \<and> literal s"
  shows "tokenizeExpression_loop A acc (chain xs) cp =
    Inr (f_of_d A (foldl (\<lambda>acc (opr, s).
        if opr = CHR ''+'' then d_add A acc (d_of_f A (fst (makeFloat A s)))
        else d_sub A acc (d_of_f A (fst (makeFloat A s)))) acc xs), [], cp)"
  using assms
proof (induction xs arbitrary: acc)
  case Nil
  show ?case by (simp add: tokenizeExpression_loop_stop)
next
  case (Cons x xs)
  obtain opr s where x: "x = (opr, s)" by (cases x)
  from Cons.prems x have opr: "opr = CHR ''+'' \<or> opr = CHR ''-''" and s: "literal s"
    and xs: "\<forall>(opr, s) \<in> set xs. (opr = CHR ''+'' \<or> opr = CHR ''-'') \<and> literal s"
    by auto
  have "peek (chain xs) \<in> {CHR ''+'', CHR ''-''} \<or> chain xs = []"
    by (rule peek_chain) (use xs in auto)
  then have st: "\<not> isDigit (peek (chain xs))" "peek (chain xs) \<noteq> CHR ''.''"
    "peek (chain xs) \<noteq> CHR '' ''" "peek (chain xs) \<noteq> CHR ''*''" "peek (chain xs) \<noteq> CHR ''/''"
    by auto
  have t: "tokenizeMulDiv A (s @ chain xs) cp = Inr (fst (makeFloat A s), chain xs, cp)"
    using tokenizeMulDiv_literal[OF s st(1,2), of A cp] st by (simp add: skip_spaces_id)
  show ?case
  proof (cases "opr = CHR ''+''")
    case True
    have "tokenizeExpression_loop A acc (chain (x # xs)) cp =
        tokenizeExpression_loop A (d_add A acc (d_of_f A (fst (makeFloat A s)))) (chain xs) cp"
      by (rule tokenizeExpression_loop_add) (use True x t in simp_all)
    then show ?thesis using True x by (simp add: Cons.IH[OF xs])
  next
    case False
    with opr have m: "opr = CHR ''-''" by simp
    have "tokenizeExpression_loop A acc (chain (x # xs)) cp =
        tokenizeExpression_loop A (d_sub A acc (d_of_f A (fst (makeFloat A s)))) (chain xs) cp"
      by (rule tokenizeExpression_loop_sub) (use m x t in simp_all)
    then show ?thesis using m x by (simp add: Cons.IH[OF xs])
  qed
qed

lemma tokenizeMulDiv_loop_chain:
  assumes "\<forall>(opr, s) \<in> set xs. (opr = CHR ''*'' \<or> opr = CHR ''/'') \<and> literal s \<and>
      (opr = CHR ''/'' \<longrightarrow> f_neq A (fst (makeFloat A s)) (f_of_int A 0))"
  shows "tokenizeMulDiv_loop A acc (chain xs) cp =
    Inr (foldl (\<lambda>acc (opr, s).
        if opr \<noteq> CHR ''/'' then f_mul A acc (fst (makeFloat A s))
        else f_div A acc (fst (makeFloat A s))) acc xs, [], cp)"
  using assms
proof (induction xs arbitrary: acc)
  case Nil
  show ?case by (simp add: tokenizeMulDiv_loop_stop)
next
  case (Cons x xs)
  obtain opr s where x: "x = (opr, s)" by (cases x)
  from Cons.prems x have opr: "opr = CHR ''*'' \<or> opr = CHR ''/''" and s: "literal s"
    and nz: "opr = CHR ''/'' \<Longrightarrow> f_neq A (fst (makeFloat A s)) (f_of_int A 0)"
    and xs: "\<forall>(opr, s) \<in> set xs. (opr = CHR ''*'' \<or> opr = CHR ''/'') \<and> literal s \<and>
      (opr = CHR ''/'' \<longrightarrow> f_neq A (fst (makeFloat A s)) (f_of_int A 0))"
    by auto
  have "peek (chain xs) \<in> {CHR ''*'', CHR ''/''} \<or> chain xs = []"
    by (rule peek_chain) (use xs in auto)
  then have st: "\<not> isDigit (peek (chain xs))" "peek (chain xs) \<noteq> CHR ''.''"
    by auto
  have t: "tokenizeNumbers A (s @ chain xs) cp = Inr (fst (makeFloat A s), chain xs, cp)"
    by (rule tokenizeNumbers_literal[OF s st])
  show ?case
  proof (cases "opr = CHR ''*''")
    case True
    have "tokenizeMulDiv_loop A acc (chain (x # xs)) cp =
        tokenizeMulDiv_loop A (f_mul A acc (fst (makeFloat A s))) (chain xs) cp"
      by (rule tokenizeMulDiv_loop_mul) (use True x t in simp_all)
    then show ?thesis using True x by (simp add: Cons.IH[OF xs])
  next
    case False
    with opr have m: "opr = CHR ''/''" by simp
    have "tokenizeMulDiv_loop A acc (chain (x # xs)) cp =
        (if \<not> f_neq A (fst (makeFloat A s)) (f_of_int A 0) then Inl DivisionByZero
         else tokenizeMulDiv_loop A (f_div A acc (fst (makeFloat A s))) (chain xs) cp)"
      by (rule tokenizeMulDiv_loop_div) (use m x t in simp_all)
    then show ?thesis using m x nz by (simp add: Cons.IH[OF xs])
  qed
qed


lemma makeFloat_exact_values:
  "fst (makeFloat exact_arith ''10'') = 10" "fst (makeFloat exact_arith ''4'') = 4"
  "fst (makeFloat exact_arith ''3'') = 3" "fst (makeFloat exact_arith ''1'') = 1"
  "fst (makeFloat exact_arith ''2'') = 2" "fst (makeFloat exact_arith ''5'') = 5"
  "fst (makeFloat exact_arith ''3.5'') = 7 / 2" "fst (makeFloat exact_arith ''0'') = 0"
  by (simp_all add: makeFloat_def makeFloat_value_def exact_arith_def isDigit_def toDigit_def)

lemma literal_examples:
  "literal ''10''" "literal ''4''" "literal ''3''" "literal ''1''" "literal ''2''" "literal ''5''"
  "literal ''3.5''" "literal ''0''"
  by (simp_all add: literal_def isDigit_def)


subsection \<open>Precedence and associativity\<close>

text \<open>
  Claim C1. For unsigned numeric literals \<open>a\<close>, \<open>b\<close>, \<open>c\<close>, evaluating the text
  \<open>a + b * c\<close> succeeds with the sum of \<open>a\<close> and the product of \<open>b\<close> and \<open>c\<close>: the
  product is formed first (in \<^verbatim>\<open>float\<close>), then added to \<open>a\<close> (in \<^verbatim>\<open>double\<close>), and the
  sum is returned as a \<^verbatim>\<open>float\<close>. The value of a literal is the one \<open>makeFloat\<close> gives it.
\<close>

theorem precedence:
  assumes "literal a" "literal b" "literal c"
  shows "solve A (a @ '' + '' @ b @ '' * '' @ c) =
    Inr (f_of_d A (d_add A (d_of_f A (fst (makeFloat A a)))
      (d_of_f A (f_mul A (fst (makeFloat A b)) (fst (makeFloat A c))))))"
proof -
  let ?va = "fst (makeFloat A a)" and ?vb = "fst (makeFloat A b)" and ?vc = "fst (makeFloat A c)"
  have c: "tokenizeNumbers A (CHR '' '' # c) 0 = Inr (?vc, [], 0)"
    using tokenizeNumbers_literal[OF assms(3), of "[]" A 0] by (simp add: tokenizeNumbers_space)
  have b: "tokenizeNumbers A (b @ '' * '' @ c) 0 = Inr (?vb, '' * '' @ c, 0)"
    by (rule tokenizeNumbers_literal[OF assms(2)]) simp_all
  have "tokenizeMulDiv_loop A ?vb ('' * '' @ c) 0 = tokenizeMulDiv_loop A (f_mul A ?vb ?vc) [] 0"
    by (rule tokenizeMulDiv_loop_mul) (use c in simp_all)
  also have "\<dots> = Inr (f_mul A ?vb ?vc, [], 0)"
    by (simp add: tokenizeMulDiv_loop_stop)
  finally have bc: "tokenizeMulDiv A (CHR '' '' # b @ '' * '' @ c) 0 = Inr (f_mul A ?vb ?vc, [], 0)"
    using b by (simp add: tokenizeMulDiv_space tokenizeMulDiv.simps[of A "b @ _"])
  have a: "tokenizeNumbers A (a @ '' + '' @ b @ '' * '' @ c) 0 =
      Inr (?va, '' + '' @ b @ '' * '' @ c, 0)"
    by (rule tokenizeNumbers_literal[OF assms(1)]) simp_all
  have "tokenizeMulDiv_loop A ?va ('' + '' @ b @ '' * '' @ c) 0 =
      Inr (?va, ''+ '' @ b @ '' * '' @ c, 0)"
    by (simp add: tokenizeMulDiv_loop_stop)
  with a have a': "tokenizeMulDiv A (a @ '' + '' @ b @ '' * '' @ c) 0 =
      Inr (?va, ''+ '' @ b @ '' * '' @ c, 0)"
    by (simp add: tokenizeMulDiv.simps[of A "a @ _"])
  have "tokenizeExpression_loop A (d_of_f A ?va) (''+ '' @ b @ '' * '' @ c) 0 =
      tokenizeExpression_loop A (d_add A (d_of_f A ?va) (d_of_f A (f_mul A ?vb ?vc))) [] 0"
    by (rule tokenizeExpression_loop_add) (use bc in simp_all)
  also have "\<dots> = Inr (f_of_d A (d_add A (d_of_f A ?va) (d_of_f A (f_mul A ?vb ?vc))), [], 0)"
    by (simp add: tokenizeExpression_loop_stop)
  finally have "tokenizeExpression A (a @ '' + '' @ b @ '' * '' @ c) 0 =
      Inr (f_of_d A (d_add A (d_of_f A ?va) (d_of_f A (f_mul A ?vb ?vc))), [], 0)"
    using a' by (simp add: tokenizeExpression.simps[of A "a @ _"])
  then show ?thesis
    by (simp add: solve_def)
qed

theorem precedence_witness:
  "literal ''2'' \<and> literal ''3.5'' \<and> literal ''4'' \<and>
   solve exact_arith ''2 + 3.5 * 4'' = Inr 16 \<and> (16 :: rat) \<noteq> (2 + 3.5) * 4"
proof -
  have l: "literal ''2''" "literal ''3.5''" "literal ''4''"
    by (simp_all add: literal_def isDigit_def)
  have v: "fst (makeFloat exact_arith ''2'') = 2" "fst (makeFloat exact_arith ''3.5'') = 7 / 2"
    "fst (makeFloat exact_arith ''4'') = 4"
    by (simp_all add: makeFloat_def makeFloat_value_def exact_arith_def isDigit_def toDigit_def)
  from precedence[OF l, of exact_arith] v have "solve exact_arith ''2 + 3.5 * 4'' = Inr 16"
    by (simp add: exact_arith_def)
  with l show ?thesis by simp
qed


text \<open>
  Claim C2. For unsigned numeric literals, \<open>a - b - c\<close> evaluates to \<open>(a - b) - c\<close>.
  More generally each operator level is a left-to-right fold over its operands: a literal
  followed by any chain of \<^verbatim>\<open>+\<close> and \<^verbatim>\<open>-\<close> operands evaluates to \<open>foldl\<close> of
  add/subtract from the first literal, and a literal followed by any chain of \<^verbatim>\<open>*\<close> and
  \<^verbatim>\<open>/\<close> operands (the divisors different from zero) evaluates to \<open>foldl\<close> of
  multiply/divide, the accumulator being combined with each operand as soon as it is read.
\<close>

theorem left_to_right_fold:
  assumes "literal a" "literal b" "literal c"
    and "\<forall>(opr, s) \<in> set xs. (opr = CHR ''+'' \<or> opr = CHR ''-'') \<and> literal s"
    and "\<forall>(opr, s) \<in> set ys. (opr = CHR ''*'' \<or> opr = CHR ''/'') \<and> literal s \<and>
      (opr = CHR ''/'' \<longrightarrow> f_neq A (fst (makeFloat A s)) (f_of_int A 0))"
  shows "solve A (a @ '' - '' @ b @ '' - '' @ c) =
      Inr (f_of_d A (d_sub A (d_sub A (d_of_f A (fst (makeFloat A a))) (d_of_f A (fst (makeFloat A b))))
        (d_of_f A (fst (makeFloat A c))))) \<and>
    solve A (a @ chain xs) =
      Inr (f_of_d A (foldl (\<lambda>acc (opr, s).
        if opr = CHR ''+'' then d_add A acc (d_of_f A (fst (makeFloat A s)))
        else d_sub A acc (d_of_f A (fst (makeFloat A s)))) (d_of_f A (fst (makeFloat A a))) xs)) \<and>
    solve A (a @ chain ys) =
      Inr (f_of_d A (d_of_f A (foldl (\<lambda>acc (opr, s).
        if opr \<noteq> CHR ''/'' then f_mul A acc (fst (makeFloat A s))
        else f_div A acc (fst (makeFloat A s))) (fst (makeFloat A a)) ys)))"
proof (intro conjI)
  let ?va = "fst (makeFloat A a)" and ?vb = "fst (makeFloat A b)" and ?vc = "fst (makeFloat A c)"
  have c: "tokenizeMulDiv A (CHR '' '' # c) 0 = Inr (?vc, [], 0)"
    using tokenizeMulDiv_literal[OF assms(3), of "[]" A 0] by (simp add: tokenizeMulDiv_space)
  have b: "tokenizeMulDiv A (CHR '' '' # b @ '' - '' @ c) 0 = Inr (?vb, ''- '' @ c, 0)"
    using tokenizeMulDiv_literal[OF assms(2), of "'' - '' @ c" A 0]
    by (simp add: tokenizeMulDiv_space)
  have a: "tokenizeMulDiv A (a @ '' - '' @ b @ '' - '' @ c) 0 =
      Inr (?va, ''- '' @ b @ '' - '' @ c, 0)"
    using tokenizeMulDiv_literal[OF assms(1), of "'' - '' @ b @ '' - '' @ c" A 0] by simp
  have "tokenizeExpression_loop A (d_of_f A ?va) (''- '' @ b @ '' - '' @ c) 0 =
      tokenizeExpression_loop A (d_sub A (d_of_f A ?va) (d_of_f A ?vb)) (''- '' @ c) 0"
    by (rule tokenizeExpression_loop_sub) (use b in simp_all)
  also have "\<dots> = tokenizeExpression_loop A
      (d_sub A (d_sub A (d_of_f A ?va) (d_of_f A ?vb)) (d_of_f A ?vc)) [] 0"
    by (rule tokenizeExpression_loop_sub) (use c in simp_all)
  also have "\<dots> = Inr (f_of_d A (d_sub A (d_sub A (d_of_f A ?va) (d_of_f A ?vb)) (d_of_f A ?vc)), [], 0)"
    by (simp add: tokenizeExpression_loop_stop)
  finally have "tokenizeExpression A (a @ '' - '' @ b @ '' - '' @ c) 0 =
      Inr (f_of_d A (d_sub A (d_sub A (d_of_f A ?va) (d_of_f A ?vb)) (d_of_f A ?vc)), [], 0)"
    using a by (simp add: tokenizeExpression.simps[of A "a @ _"])
  then show "solve A (a @ '' - '' @ b @ '' - '' @ c) =
      Inr (f_of_d A (d_sub A (d_sub A (d_of_f A ?va) (d_of_f A ?vb)) (d_of_f A ?vc)))"
    by (simp add: solve_def)
next
  have "peek (chain xs) \<in> {CHR ''+'', CHR ''-''} \<or> chain xs = []"
    by (rule peek_chain) (use assms(4) in auto)
  then have st: "\<not> isDigit (peek (chain xs))" "peek (chain xs) \<noteq> CHR ''.''"
    "peek (chain xs) \<noteq> CHR '' ''" "peek (chain xs) \<noteq> CHR ''*''" "peek (chain xs) \<noteq> CHR ''/''"
    by auto
  have "tokenizeMulDiv A (a @ chain xs) 0 = Inr (fst (makeFloat A a), chain xs, 0)"
    using tokenizeMulDiv_literal[OF assms(1) st(1,2), of A 0] st by (simp add: skip_spaces_id)
  then show "solve A (a @ chain xs) =
      Inr (f_of_d A (foldl (\<lambda>acc (opr, s).
        if opr = CHR ''+'' then d_add A acc (d_of_f A (fst (makeFloat A s)))
        else d_sub A acc (d_of_f A (fst (makeFloat A s)))) (d_of_f A (fst (makeFloat A a))) xs))"
    by (simp add: solve_def tokenizeExpression.simps[of A "a @ _"]
        tokenizeExpression_loop_chain[OF assms(4)])
next
  have "peek (chain ys) \<in> {CHR ''*'', CHR ''/''} \<or> chain ys = []"
    by (rule peek_chain) (use assms(5) in auto)
  then have st: "\<not> isDigit (peek (chain ys))" "peek (chain ys) \<noteq> CHR ''.''"
    by auto
  have "tokenizeNumbers A (a @ chain ys) 0 = Inr (fst (makeFloat A a), chain ys, 0)"
    by (rule tokenizeNumbers_literal[OF assms(1) st])
  then show "solve A (a @ chain ys) =
      Inr (f_of_d A (d_of_f A (foldl (\<lambda>acc (opr, s).
        if opr \<noteq> CHR ''/'' then f_mul A acc (fst (makeFloat A s))
        else f_div A acc (fst (makeFloat A s))) (fst (makeFloat A a)) ys)))"
    by (simp add: solve_def tokenizeExpression.simps[of A "a @ _"] tokenizeMulDiv.simps[of A "a @ _"]
        tokenizeMulDiv_loop_chain[OF assms(5)] tokenizeExpression_loop_stop)
qed

theorem left_to_right_fold_witness:
  "literal ''10'' \<and> literal ''4'' \<and> literal ''3'' \<and>
   solve exact_arith ''10 - 4 - 3'' = Inr 3 \<and> (3 :: rat) \<noteq> 10 - (4 - 3) \<and>
   solve exact_arith ''10-4+1-3'' = Inr 4 \<and>
   solve exact_arith ''10/4*2/5'' = Inr 1"
proof -
  have xs: "\<forall>(opr, s) \<in> set [(CHR ''-'', ''4''), (CHR ''+'', ''1''), (CHR ''-'', ''3'')].
      (opr = CHR ''+'' \<or> opr = CHR ''-'') \<and> literal s"
    by (simp add: literal_examples)
  have ys: "\<forall>(opr, s) \<in> set [(CHR ''/'', ''4''), (CHR ''*'', ''2''), (CHR ''/'', ''5'')].
      (opr = CHR ''*'' \<or> opr = CHR ''/'') \<and> literal s \<and>
      (opr = CHR ''/'' \<longrightarrow> f_neq exact_arith (fst (makeFloat exact_arith s)) (f_of_int exact_arith 0))"
    by (simp add: literal_examples makeFloat_exact_values) (simp add: exact_arith_def)
  from left_to_right_fold[OF literal_examples(1,2,3) xs ys]
  show ?thesis
    by (simp add: literal_examples makeFloat_exact_values) (simp add: exact_arith_def)
qed

subsection \<open>The parenthesis counter: every call returns the one it was given\<close>

lemma tok_depth:
  "tokenizeNumbers A eq cp = Inr (v, eq', cp') \<Longrightarrow> cp' = cp"
  "tokenizeMulDiv A eq cp = Inr (v, eq', cp') \<Longrightarrow> cp' = cp"
  "tokenizeMulDiv_loop A first eq cp = Inr (v, eq', cp') \<Longrightarrow> cp' = cp"
  "tokenizeExpression A eq cp = Inr (v, eq', cp') \<Longrightarrow> cp' = cp"
  "tokenizeExpression_loop A dfirst eq cp = Inr (v, eq', cp') \<Longrightarrow> cp' = cp"
proof (induct A eq cp and A eq cp and A first eq cp and A eq cp and A dfirst eq cp
    arbitrary: v eq' cp' and v eq' cp' and v eq' cp' and v eq' cp' and v eq' cp'
    rule: tokenizeNumbers_tokenizeMulDiv_tokenizeMulDiv_loop_tokenizeExpression_tokenizeExpression_loop.induct)
  case (1 A eq countParenthesis)
  from "1.prems" "1.hyps" show ?case
    by (subst (asm) tokenizeNumbers.simps)
      (fastforce simp: Let_def split: sum.splits prod.splits if_splits)
next
  case (2 A eq countParenthesis)
  from "2.prems" "2.hyps" show ?case
    by (subst (asm) tokenizeMulDiv.simps)
      (fastforce simp: Let_def split: sum.splits prod.splits if_splits)
next
  case (3 A first eq countParenthesis)
  from "3.prems" "3.hyps" show ?case
    by (subst (asm) tokenizeMulDiv_loop.simps)
      (fastforce simp: Let_def split: sum.splits prod.splits if_splits)
next
  case (4 A eq countParenthesis)
  from "4.prems" "4.hyps" show ?case
    by (subst (asm) tokenizeExpression.simps)
      (fastforce simp: Let_def split: sum.splits prod.splits if_splits)
next
  case (5 A first eq countParenthesis)
  from "5.prems" "5.hyps" show ?case
    by (subst (asm) tokenizeExpression_loop.simps)
      (fastforce simp: Let_def split: sum.splits prod.splits if_splits)
qed

subsection \<open>Division by zero\<close>

lemma tokenizeMulDiv_loop_chain_zero:
  assumes "\<forall>(opr, s) \<in> set ys. (opr = CHR ''*'' \<or> opr = CHR ''/'') \<and> literal s"
    and "\<exists>(opr, s) \<in> set ys. opr = CHR ''/'' \<and> \<not> f_neq A (fst (makeFloat A s)) (f_of_int A 0)"
  shows "tokenizeMulDiv_loop A acc (chain ys) cp = Inl DivisionByZero"
  using assms
proof (induction ys arbitrary: acc)
  case Nil
  then show ?case by simp
next
  case (Cons x ys)
  obtain opr s where x: "x = (opr, s)" by (cases x)
  from Cons.prems x have opr: "opr = CHR ''*'' \<or> opr = CHR ''/''" and s: "literal s"
    and ys: "\<forall>(opr, s) \<in> set ys. (opr = CHR ''*'' \<or> opr = CHR ''/'') \<and> literal s"
    by auto
  have "peek (chain ys) \<in> {CHR ''*'', CHR ''/''} \<or> chain ys = []"
    by (rule peek_chain) (use ys in auto)
  then have st: "\<not> isDigit (peek (chain ys))" "peek (chain ys) \<noteq> CHR ''.''"
    by auto
  have t: "tokenizeNumbers A (s @ chain ys) cp = Inr (fst (makeFloat A s), chain ys, cp)"
    by (rule tokenizeNumbers_literal[OF s st])
  show ?case
  proof (cases "opr = CHR ''/'' \<and> \<not> f_neq A (fst (makeFloat A s)) (f_of_int A 0)")
    case True
    have "tokenizeMulDiv_loop A acc (chain (x # ys)) cp =
        (if \<not> f_neq A (fst (makeFloat A s)) (f_of_int A 0) then Inl DivisionByZero
         else tokenizeMulDiv_loop A (f_div A acc (fst (makeFloat A s))) (chain ys) cp)"
      by (rule tokenizeMulDiv_loop_div) (use True x t in simp_all)
    with True show ?thesis by simp
  next
    case False
    with Cons.prems(2) x
    have z: "\<exists>(opr, s) \<in> set ys. opr = CHR ''/'' \<and> \<not> f_neq A (fst (makeFloat A s)) (f_of_int A 0)"
      by auto
    show ?thesis
    proof (cases "opr = CHR ''*''")
      case True
      have "tokenizeMulDiv_loop A acc (chain (x # ys)) cp =
          tokenizeMulDiv_loop A (f_mul A acc (fst (makeFloat A s))) (chain ys) cp"
        by (rule tokenizeMulDiv_loop_mul) (use True x t in simp_all)
      then show ?thesis by (simp add: Cons.IH[OF ys z])
    next
      case F: False
      with opr have m: "opr = CHR ''/''" by simp
      have "tokenizeMulDiv_loop A acc (chain (x # ys)) cp =
          (if \<not> f_neq A (fst (makeFloat A s)) (f_of_int A 0) then Inl DivisionByZero
           else tokenizeMulDiv_loop A (f_div A acc (fst (makeFloat A s))) (chain ys) cp)"
        by (rule tokenizeMulDiv_loop_div) (use m x t in simp_all)
      with False m show ?thesis by (simp add: Cons.IH[OF ys z])
    qed
  qed
qed

lemma solve_chain_zero:
  assumes "literal a" "\<forall>(opr, s) \<in> set ys. (opr = CHR ''*'' \<or> opr = CHR ''/'') \<and> literal s"
    and "\<exists>(opr, s) \<in> set ys. opr = CHR ''/'' \<and> \<not> f_neq A (fst (makeFloat A s)) (f_of_int A 0)"
  shows "solve A (a @ chain ys) = Inl DivisionByZero"
proof -
  have "peek (chain ys) \<in> {CHR ''*'', CHR ''/''} \<or> chain ys = []"
    by (rule peek_chain) (use assms(2) in auto)
  then have st: "\<not> isDigit (peek (chain ys))" "peek (chain ys) \<noteq> CHR ''.''"
    by auto
  have "tokenizeNumbers A (a @ chain ys) 0 = Inr (fst (makeFloat A a), chain ys, 0)"
    by (rule tokenizeNumbers_literal[OF assms(1) st])
  then show ?thesis
    by (simp add: solve_def tokenizeExpression.simps[of A "a @ _"] tokenizeMulDiv.simps[of A "a @ _"]
        tokenizeMulDiv_loop_chain_zero[OF assms(2,3)])
qed

lemma solve_chain_nonzero:
  assumes "literal a" "\<forall>(opr, s) \<in> set ys. (opr = CHR ''*'' \<or> opr = CHR ''/'') \<and> literal s"
    and "\<not> (\<exists>(opr, s) \<in> set ys. opr = CHR ''/'' \<and> \<not> f_neq A (fst (makeFloat A s)) (f_of_int A 0))"
  shows "\<exists>v. solve A (a @ chain ys) = Inr v"
proof -
  have "peek (chain ys) \<in> {CHR ''*'', CHR ''/''} \<or> chain ys = []"
    by (rule peek_chain) (use assms(2) in auto)
  then have st: "\<not> isDigit (peek (chain ys))" "peek (chain ys) \<noteq> CHR ''.''"
    by auto
  have ys: "\<forall>(opr, s) \<in> set ys. (opr = CHR ''*'' \<or> opr = CHR ''/'') \<and> literal s \<and>
      (opr = CHR ''/'' \<longrightarrow> f_neq A (fst (makeFloat A s)) (f_of_int A 0))"
    using assms(2,3) by auto
  have "tokenizeNumbers A (a @ chain ys) 0 = Inr (fst (makeFloat A a), chain ys, 0)"
    by (rule tokenizeNumbers_literal[OF assms(1) st])
  then show ?thesis
    by (simp add: solve_def tokenizeExpression.simps[of A "a @ _"] tokenizeMulDiv.simps[of A "a @ _"]
        tokenizeMulDiv_loop_chain[OF ys] tokenizeExpression_loop_stop)
qed

text \<open>
  Claim C3. When the loop of \<open>tokenizeMulDiv\<close> is at a \<^verbatim>\<open>/\<close> and the right operand
  (a number or a parenthesised expression, read by \<open>tokenizeNumbers\<close>) has a value, the call
  fails with \<open>DivisionByZero\<close> if that value compares equal to zero, and otherwise goes
  on with the quotient: the division itself does not fail. For a literal followed by any
  chain of \<^verbatim>\<open>*\<close> and \<^verbatim>\<open>/\<close> literals, \<open>solve\<close> fails with \<open>DivisionByZero\<close> if some
  divisor is zero and returns a value otherwise. In particular \<open>1/0\<close> fails with
  \<open>DivisionByZero\<close>, in every arithmetic in which the literal \<open>0\<close> compares equal to zero.
\<close>

theorem division_by_zero:
  "(peek (skip_spaces eq) = CHR ''/'' \<and>
    tokenizeNumbers A (tl (skip_spaces eq)) cp = Inr (second, eq2, cp2) \<longrightarrow>
      tokenizeMulDiv_loop A first eq cp =
        (if f_neq A second (f_of_int A 0)
         then tokenizeMulDiv_loop A (f_div A first second) eq2 cp2
         else Inl DivisionByZero)) \<and>
   (literal a \<and> (\<forall>(opr, s) \<in> set ys. (opr = CHR ''*'' \<or> opr = CHR ''/'') \<and> literal s) \<longrightarrow>
      (if \<exists>(opr, s) \<in> set ys. opr = CHR ''/'' \<and> \<not> f_neq A (fst (makeFloat A s)) (f_of_int A 0)
       then solve A (a @ chain ys) = Inl DivisionByZero
       else \<exists>v. solve A (a @ chain ys) = Inr v)) \<and>
   (\<not> f_neq A (fst (makeFloat A ''0'')) (f_of_int A 0) \<longrightarrow> solve A ''1/0'' = Inl DivisionByZero)"
proof (intro conjI impI)
  assume "peek (skip_spaces eq) = CHR ''/'' \<and>
    tokenizeNumbers A (tl (skip_spaces eq)) cp = Inr (second, eq2, cp2)"
  then show "tokenizeMulDiv_loop A first eq cp =
        (if f_neq A second (f_of_int A 0)
         then tokenizeMulDiv_loop A (f_div A first second) eq2 cp2
         else Inl DivisionByZero)"
    by (simp add: tokenizeMulDiv_loop_div)
next
  assume "literal a \<and> (\<forall>(opr, s) \<in> set ys. (opr = CHR ''*'' \<or> opr = CHR ''/'') \<and> literal s)"
  then show "if \<exists>(opr, s) \<in> set ys. opr = CHR ''/'' \<and> \<not> f_neq A (fst (makeFloat A s)) (f_of_int A 0)
       then solve A (a @ chain ys) = Inl DivisionByZero
       else \<exists>v. solve A (a @ chain ys) = Inr v"
    using solve_chain_zero[of a ys A] solve_chain_nonzero[of a ys A] by simp
next
  assume z: "\<not> f_neq A (fst (makeFloat A ''0'')) (f_of_int A 0)"
  have "solve A (''1'' @ chain [(CHR ''/'', ''0'')]) = Inl DivisionByZero"
    by (rule solve_chain_zero) (use z in \<open>simp_all add: literal_examples\<close>)
  then show "solve A ''1/0'' = Inl DivisionByZero" by simp
qed

theorem division_by_zero_witness:
  "tokenizeMulDiv_loop exact_arith 8 ''/(2-2)+1'' 0 = Inl DivisionByZero \<and>
   tokenizeMulDiv_loop exact_arith 8 ''/(4-2)+1'' 0 = Inr (4, ''+1'', 0) \<and>
   solve exact_arith ''3*4/0*5'' = Inl DivisionByZero \<and>
   solve exact_arith ''3*4/2*0'' = Inr 0 \<and>
   solve exact_arith ''1/0'' = Inl DivisionByZero"
proof -
  have 1: "tokenizeNumbers exact_arith ''(2-2)+1'' 0 = Inr (0, ''+1'', 0)"
    by code_simp
  have 2: "tokenizeNumbers exact_arith ''(4-2)+1'' 0 = Inr (2, ''+1'', 0)"
    by code_simp
  have 3: "tokenizeMulDiv_loop exact_arith 4 ''+1'' 0 = Inr (4, ''+1'', 0)"
    by code_simp
  have n: "f_neq exact_arith x (f_of_int exact_arith 0) \<longleftrightarrow> x \<noteq> 0"
    "f_div exact_arith x y = x / y" for x y
    by (simp_all add: exact_arith_def)
  have a: "tokenizeMulDiv_loop exact_arith 8 ''/(2-2)+1'' 0 = Inl DivisionByZero"
    using division_by_zero[of "''/(2-2)+1''" exact_arith 0 0 "''+1''" 0 8 "[]" "[]"] 1
    by (simp add: n)
  have b: "tokenizeMulDiv_loop exact_arith 8 ''/(4-2)+1'' 0 = Inr (4, ''+1'', 0)"
    using division_by_zero[of "''/(4-2)+1''" exact_arith 0 2 "''+1''" 0 8 "[]" "[]"] 2 3
    by (simp add: n)
  have c: "solve exact_arith ''3*4/0*5'' = Inl DivisionByZero"
    using division_by_zero[of "[]" exact_arith 0 0 "[]" 0 0 "''3''"
        "[(CHR ''*'', ''4''), (CHR ''/'', ''0''), (CHR ''*'', ''5'')]"]
    by (simp add: literal_examples makeFloat_exact_values n)
  have d0: "\<exists>v. solve exact_arith ''3*4/2*0'' = Inr v"
    using division_by_zero[of "[]" exact_arith 0 0 "[]" 0 0 "''3''"
        "[(CHR ''*'', ''4''), (CHR ''/'', ''2''), (CHR ''*'', ''0'')]"]
    by (simp add: literal_examples makeFloat_exact_values n)
  have d: "solve exact_arith ''3*4/2*0'' = Inr 0"
    by code_simp
  have e: "solve exact_arith ''1/0'' = Inl DivisionByZero"
    using division_by_zero[of "[]" exact_arith 0 0 "[]" 0 0 "[]" "[]"]
    by (simp add: makeFloat_exact_values n)
  from a b c d0 d e show ?thesis by blast
qed

subsection \<open>Parentheses\<close>

lemma tokenizeExpression_chain:
  assumes "literal a" "\<forall>(opr, s) \<in> set xs. (opr = CHR ''+'' \<or> opr = CHR ''-'') \<and> literal s"
  shows "tokenizeExpression A (a @ chain xs) cp =
    Inr (f_of_d A (foldl (\<lambda>acc (opr, s).
        if opr = CHR ''+'' then d_add A acc (d_of_f A (fst (makeFloat A s)))
        else d_sub A acc (d_of_f A (fst (makeFloat A s)))) (d_of_f A (fst (makeFloat A a))) xs), [], cp)"
proof -
  have "peek (chain xs) \<in> {CHR ''+'', CHR ''-''} \<or> chain xs = []"
    by (rule peek_chain) (use assms(2) in auto)
  then have st: "\<not> isDigit (peek (chain xs))" "peek (chain xs) \<noteq> CHR ''.''"
    "peek (chain xs) \<noteq> CHR '' ''" "peek (chain xs) \<noteq> CHR ''*''" "peek (chain xs) \<noteq> CHR ''/''"
    by auto
  have "tokenizeMulDiv A (a @ chain xs) cp = Inr (fst (makeFloat A a), chain xs, cp)"
    using tokenizeMulDiv_literal[OF assms(1) st(1,2), of A cp] st by (simp add: skip_spaces_id)
  then show ?thesis
    by (simp add: tokenizeExpression.simps[of A "a @ _"] tokenizeExpression_loop_chain[OF assms(2)])
qed

lemma tokenizeNumbers_paren:
  assumes "eq2 = (if peek (skip_spaces eq) = CHR ''-'' then tl (skip_spaces eq) else skip_spaces eq)"
    and "peek eq2 = CHR ''(''"
    and "tokenizeExpression A (tl eq2) (cp + 1) = Inr (calculated, eq3, cp3)"
  shows "tokenizeNumbers A eq cp =
    (if peek eq3 \<noteq> CHR '')'' then Inl UnbalancedParentheses
     else Inr (if peek (skip_spaces eq) = CHR ''-'' then f_mul A calculated (f_of_int A (- 1))
               else calculated, tl eq3, cp))"
proof -
  from tok_depth(4)[OF assms(3)] have "cp3 = cp + 1" .
  with assms show ?thesis
    by (subst tokenizeNumbers.simps) (simp add: Let_def)
qed

lemma solve_Inl:
  "tokenizeNumbers A eq 0 = Inl e \<Longrightarrow> solve A eq = Inl e"
  by (simp add: solve_def tokenizeExpression.simps[of A eq] tokenizeMulDiv.simps[of A eq])

lemma solve_open_chain:
  assumes "literal a" "\<forall>(opr, s) \<in> set xs. (opr = CHR ''+'' \<or> opr = CHR ''-'') \<and> literal s"
  shows "solve A (CHR ''('' # a @ chain xs) = Inl UnbalancedParentheses"
proof -
  let ?eq = "CHR ''('' # a @ chain xs"
  have te: "tokenizeExpression A (tl ?eq) (0 + 1) =
    Inr (f_of_d A (foldl (\<lambda>acc (opr, s).
        if opr = CHR ''+'' then d_add A acc (d_of_f A (fst (makeFloat A s)))
        else d_sub A acc (d_of_f A (fst (makeFloat A s)))) (d_of_f A (fst (makeFloat A a))) xs), [], 0 + 1)"
    using tokenizeExpression_chain[OF assms, of A "0 + 1"] by simp
  have "tokenizeNumbers A ?eq 0 = Inl UnbalancedParentheses"
    using tokenizeNumbers_paren[of ?eq ?eq A 0, OF _ _ te] by simp
  then show ?thesis by (rule solve_Inl)
qed

text \<open>
  Claim C4, as amended. When \<open>tokenizeNumbers\<close> has consumed a \<^verbatim>\<open>(\<close> (after spaces and an
  optional unary minus) and the parenthesised expression has been evaluated, the call
  returns a value if the next character is \<^verbatim>\<open>)\<close> and fails with
  \<open>UnbalancedParentheses\<close> otherwise, in particular at the end of the input. So \<^verbatim>\<open>(\<close>
  followed by a literal and any chain of \<^verbatim>\<open>+\<close> and \<^verbatim>\<open>-\<close> literals, with no closing
  parenthesis, fails with \<open>UnbalancedParentheses\<close>; \<open>(1+2\<close> is one such input.
\<close>

theorem unmatched_open_paren:
  "(eq2 = (if peek (skip_spaces eq) = CHR ''-'' then tl (skip_spaces eq) else skip_spaces eq) \<and>
    peek eq2 = CHR ''('' \<and>
    tokenizeExpression A (tl eq2) (cp + 1) = Inr (calculated, eq3, cp3) \<longrightarrow>
      (if peek eq3 = CHR '')'' then \<exists>v. tokenizeNumbers A eq cp = Inr (v, tl eq3, cp)
       else tokenizeNumbers A eq cp = Inl UnbalancedParentheses)) \<and>
   (literal a \<and> (\<forall>(opr, s) \<in> set xs. (opr = CHR ''+'' \<or> opr = CHR ''-'') \<and> literal s) \<longrightarrow>
      solve A (''('' @ a @ chain xs) = Inl UnbalancedParentheses) \<and>
   solve A ''(1+2'' = Inl UnbalancedParentheses"
proof (intro conjI impI)
  assume "eq2 = (if peek (skip_spaces eq) = CHR ''-'' then tl (skip_spaces eq) else skip_spaces eq) \<and>
    peek eq2 = CHR ''('' \<and>
    tokenizeExpression A (tl eq2) (cp + 1) = Inr (calculated, eq3, cp3)"
  then have h: "eq2 = (if peek (skip_spaces eq) = CHR ''-'' then tl (skip_spaces eq) else skip_spaces eq)"
    "peek eq2 = CHR ''(''" "tokenizeExpression A (tl eq2) (cp + 1) = Inr (calculated, eq3, cp3)"
    by blast+
  show "if peek eq3 = CHR '')'' then \<exists>v. tokenizeNumbers A eq cp = Inr (v, tl eq3, cp)
       else tokenizeNumbers A eq cp = Inl UnbalancedParentheses"
    by (simp add: tokenizeNumbers_paren[OF h])
next
  assume "literal a \<and> (\<forall>(opr, s) \<in> set xs. (opr = CHR ''+'' \<or> opr = CHR ''-'') \<and> literal s)"
  then show "solve A (''('' @ a @ chain xs) = Inl UnbalancedParentheses"
    using solve_open_chain[of a xs A] by simp
next
  have "solve A (CHR ''('' # ''1'' @ chain [(CHR ''+'', ''2'')]) = Inl UnbalancedParentheses"
    by (rule solve_open_chain) (simp_all add: literal_examples)
  then show "solve A ''(1+2'' = Inl UnbalancedParentheses" by simp
qed

theorem unmatched_open_paren_witness:
  "(\<exists>v. tokenizeNumbers exact_arith '' -(3*4 ) '' 0 = Inr (v, '' '', 0)) \<and>
   tokenizeNumbers exact_arith '' -(3*4 ) '' 0 = Inr (- 12, '' '', 0) \<and>
   tokenizeNumbers exact_arith '' -(3*4 ] '' 0 = Inl UnbalancedParentheses \<and>
   solve exact_arith ''(10-4+1-3'' = Inl UnbalancedParentheses"
proof -
  have 1: "tokenizeExpression exact_arith ''3*4 ) '' (0 + 1) = Inr (12, '') '', 1)"
    by code_simp
  have 2: "tokenizeExpression exact_arith ''3*4 ] '' (0 + 1) = Inr (12, ''] '', 1)"
    by code_simp
  have 3: "tokenizeNumbers exact_arith '' -(3*4 ) '' 0 = Inr (- 12, '' '', 0)"
    by code_simp
  have a: "\<exists>v. tokenizeNumbers exact_arith '' -(3*4 ) '' 0 = Inr (v, '' '', 0)"
    using unmatched_open_paren[of "''(3*4 ) ''" "'' -(3*4 ) ''" exact_arith 0 12 "'') ''" 1 "[]" "[]"] 1
    by simp
  have b: "tokenizeNumbers exact_arith '' -(3*4 ] '' 0 = Inl UnbalancedParentheses"
    using unmatched_open_paren[of "''(3*4 ] ''" "'' -(3*4 ] ''" exact_arith 0 12 "''] ''" 1 "[]" "[]"] 2
    by simp
  have c: "solve exact_arith ''(10-4+1-3'' = Inl UnbalancedParentheses"
    using unmatched_open_paren[of "[]" "[]" exact_arith 0 0 "[]" 0 "''10''"
        "[(CHR ''-'', ''4''), (CHR ''+'', ''1''), (CHR ''-'', ''3'')]"]
    by (simp add: literal_examples)
  from a 3 b c show ?thesis by blast
qed

text \<open>
  The universal form of the claim fails: an assertion inside the parenthesised expression
  fails first, and an opening parenthesis after the place where the top-level expression
  stops is never read. Neither outcome depends on the arithmetic.
\<close>

lemma unmatched_open_paren_other_outcomes:
  "solve A ''('' = Inl MalformedNumber \<and> (\<exists>v. solve A ''7 (8'' = Inr v)"
  by (simp add: solve_def tokenizeNumbers.simps tokenizeMulDiv.simps tokenizeExpression.simps
      tokenizeMulDiv_loop.simps tokenizeExpression_loop.simps Let_def makeFloat_def isDigit_def)

theorem unmatched_open_paren_counterexample:
  "solve exact_arith ''('' = Inl MalformedNumber \<and>
   solve exact_arith ''(1/0'' = Inl DivisionByZero \<and>
   solve exact_arith ''7 (8'' = Inr 7"
  by code_simp

text \<open>
  Claim C5 fails on the code. In \<open>1+2)\<close> the closing parenthesis is never consumed: the
  loop of \<open>tokenizeExpression\<close> stops at it, the counter is still 0, and \<open>solve\<close> returns
  the sum of 1 and 2.
\<close>

theorem unmatched_close_paren_accepted:
  "solve A ''1+2)'' =
     Inr (f_of_d A (d_add A (d_of_f A (fst (makeFloat A ''1''))) (d_of_f A (fst (makeFloat A ''2''))))) \<and>
   solve exact_arith ''1+2)'' = Inr 3"
proof
  have a: "tokenizeMulDiv A (''1'' @ ''+2)'') 0 = Inr (fst (makeFloat A ''1''), ''+2)'', 0)"
    using tokenizeMulDiv_literal[of "''1''" "''+2)''" A 0] by (simp add: literal_examples)
  have b: "tokenizeMulDiv A (''2'' @ '')'') 0 = Inr (fst (makeFloat A ''2''), '')'', 0)"
    using tokenizeMulDiv_literal[of "''2''" "'')''" A 0] by (simp add: literal_examples)
  have "tokenizeExpression_loop A (d_of_f A (fst (makeFloat A ''1''))) ''+2)'' 0 =
      tokenizeExpression_loop A
        (d_add A (d_of_f A (fst (makeFloat A ''1''))) (d_of_f A (fst (makeFloat A ''2'')))) '')'' 0"
    by (rule tokenizeExpression_loop_add) (use b in simp_all)
  also have "\<dots> = Inr (f_of_d A
      (d_add A (d_of_f A (fst (makeFloat A ''1''))) (d_of_f A (fst (makeFloat A ''2'')))), '')'', 0)"
    by (simp add: tokenizeExpression_loop_stop)
  finally show "solve A ''1+2)'' =
     Inr (f_of_d A (d_add A (d_of_f A (fst (makeFloat A ''1''))) (d_of_f A (fst (makeFloat A ''2'')))))"
    using a by (simp add: solve_def tokenizeExpression.simps[of A "''1+2)''"])
  show "solve exact_arith ''1+2)'' = Inr 3"
    by code_simp
qed

subsection \<open>The number scanner\<close>

lemma suffix_not_Cons: "suffix xs cs \<Longrightarrow> xs \<noteq> c # cs"
  using suffix_length_le by fastforce

lemma makeFloat_no_progress:
  "snd (makeFloat A s) = s \<longleftrightarrow> \<not> isDigit (peek s) \<and> peek s \<noteq> CHR ''.'' \<and> peek s \<noteq> CHR ''-''"
proof (cases s)
  case Nil
  then show ?thesis by (simp add: makeFloat_def)
next
  case (Cons c cs)
  show ?thesis
  proof (cases "c = CHR ''-''")
    case True
    then show ?thesis
      using suffix_not_Cons[OF suffix_makeFloat_loop[of A "- 1" "f_zero A" "f_zero A" 1 False cs]]
      by (simp add: makeFloat_def Cons)
  next
    case False
    then show ?thesis
      using suffix_not_Cons[OF suffix_makeFloat_loop[of A 1 "f_zero A" "f_zero A" 1 True cs]]
        suffix_not_Cons[OF suffix_makeFloat_loop[of A 1 _ "f_zero A" 1 False cs]]
      by (auto simp: makeFloat_def Cons)
  qed
qed

lemma tokenizeNumbers_number:
  assumes "eq2 = (if peek (skip_spaces eq) = CHR ''-'' then tl (skip_spaces eq) else skip_spaces eq)"
    and "peek eq2 \<noteq> CHR ''(''"
  shows "tokenizeNumbers A eq cp =
    (if snd (makeFloat A eq2) = eq2 then Inl MalformedNumber
     else Inr (if peek (skip_spaces eq) = CHR ''-''
               then f_mul A (fst (makeFloat A eq2)) (f_of_int A (- 1)) else fst (makeFloat A eq2),
               snd (makeFloat A eq2), cp))"
  using assms
  by (subst tokenizeNumbers.simps) (simp add: Let_def split: prod.splits)

text \<open>
  Claim C7, as amended. Where \<open>tokenizeNumbers\<close> reads a number (after spaces and an
  optional unary minus, the next character not being \<^verbatim>\<open>(\<close>), it fails with
  \<open>MalformedNumber\<close> exactly when \<open>makeFloat\<close> consumes no character, which is exactly
  when the next character is neither a digit, nor a decimal point, nor a minus sign.
  Otherwise it returns a value and has consumed at least one character.
\<close>

theorem malformed_number_iff_no_character:
  assumes "eq2 = (if peek (skip_spaces eq) = CHR ''-'' then tl (skip_spaces eq) else skip_spaces eq)"
    and "peek eq2 \<noteq> CHR ''(''"
  shows "(tokenizeNumbers A eq cp = Inl MalformedNumber \<longleftrightarrow> snd (makeFloat A eq2) = eq2) \<and>
    (snd (makeFloat A eq2) = eq2 \<longleftrightarrow>
       \<not> isDigit (peek eq2) \<and> peek eq2 \<noteq> CHR ''.'' \<and> peek eq2 \<noteq> CHR ''-'') \<and>
    (snd (makeFloat A eq2) \<noteq> eq2 \<longrightarrow>
       (\<exists>v. tokenizeNumbers A eq cp = Inr (v, snd (makeFloat A eq2), cp)) \<and>
       strict_suffix (snd (makeFloat A eq2)) eq2)"
  using tokenizeNumbers_number[OF assms, of A cp] makeFloat_no_progress[of A eq2]
    suffix_makeFloat[of A eq2]
  by (auto simp: strict_suffix_def)

theorem malformed_number_iff_no_character_witness:
  "tokenizeNumbers exact_arith '' -+1'' 0 = Inl MalformedNumber \<and>
   snd (makeFloat exact_arith ''+1'') = ''+1'' \<and>
   (\<exists>v. tokenizeNumbers exact_arith '' -41.5+1'' 0 = Inr (v, ''+1'', 0)) \<and>
   strict_suffix ''+1'' ''41.5+1''"
proof -
  have 1: "snd (makeFloat exact_arith ''+1'') = ''+1''"
    by (simp add: makeFloat_def)
  have 2: "snd (makeFloat exact_arith ''41.5+1'') = ''+1''"
    by (simp add: makeFloat_def isDigit_def)
  have a: "tokenizeNumbers exact_arith '' -+1'' 0 = Inl MalformedNumber"
    using malformed_number_iff_no_character[of "''+1''" "'' -+1''" exact_arith 0] 1
    by simp
  have b: "(\<exists>v. tokenizeNumbers exact_arith '' -41.5+1'' 0 = Inr (v, ''+1'', 0)) \<and>
      strict_suffix ''+1'' ''41.5+1''"
    using malformed_number_iff_no_character[of "''41.5+1''" "'' -41.5+1''" exact_arith 0] 2
    by (simp add: isDigit_def)
  from 1 a b show ?thesis by blast
qed

text \<open>
  The claim as stated fails: a lone decimal point, or a minus sign after the unary minus,
  is consumed by \<open>makeFloat\<close> and a value is returned although no digit was read, in every
  arithmetic.
\<close>

lemma value_without_digit_any_arith:
  "(\<exists>v. tokenizeNumbers A ''.'' 0 = Inr (v, [], 0)) \<and>
   (\<exists>v. tokenizeNumbers A ''--'' 0 = Inr (v, [], 0))"
  by (simp add: tokenizeNumbers.simps Let_def makeFloat_def)

theorem value_without_digit_counterexample:
  "\<not> isDigit CHR ''.'' \<and> tokenizeNumbers exact_arith ''.'' 0 = Inr (0, [], 0) \<and>
   \<not> isDigit CHR ''-'' \<and> tokenizeNumbers exact_arith ''--'' 0 = Inr (0, [], 0) \<and>
   solve exact_arith ''.'' = Inr 0"
  by code_simp

text \<open>
  Claim C8. Whenever the loop of \<open>makeFloat\<close> is in the fractional part and the next
  character is a decimal point, it returns at once the value accumulated so far and leaves
  the cursor at that point. So in a text of digits, a decimal point, digits and a second
  decimal point, \<open>makeFloat\<close> returns the value of the text before the second point with
  the cursor at it, and \<open>tokenizeNumbers\<close> returns this value without an error.
\<close>

theorem second_decimal_point_stops:
  assumes "list_all isDigit ds1" "list_all isDigit ds2"
  shows "makeFloat_loop A sign beforeDecimal afterDecimal divisor True (''.'' @ rest) =
      (makeFloat_value A sign beforeDecimal afterDecimal divisor, ''.'' @ rest) \<and>
    makeFloat A (ds1 @ ''.'' @ ds2 @ ''.'' @ rest) =
      (fst (makeFloat A (ds1 @ ''.'' @ ds2)), ''.'' @ rest) \<and>
    tokenizeNumbers A (ds1 @ ''.'' @ ds2 @ ''.'' @ rest) cp =
      Inr (fst (makeFloat A (ds1 @ ''.'' @ ds2)), ''.'' @ rest, cp)"
proof -
  let ?s = "ds1 @ ''.'' @ ds2"
  have nd: "CHR ''.'' \<notin> set ds1" "CHR ''.'' \<notin> set ds2"
    using assms by (auto simp: list_all_iff)
  then have cnt: "count_list ?s CHR ''.'' \<le> 1"
    by (simp add: count_list_0_iff)
  have all: "list_all (\<lambda>c. isDigit c \<or> c = CHR ''.'') ?s"
    using assms by (auto simp: list_all_iff)
  have m: "peek (?s @ ''.'' @ rest) \<noteq> CHR ''-''" "peek ?s \<noteq> CHR ''-''"
     "peek (?s @ ''.'' @ rest) \<noteq> CHR '' ''" "peek (?s @ ''.'' @ rest) \<noteq> CHR ''(''"
    using assms(1) by (cases ds1; auto)+
  have "makeFloat_loop A 1 (f_zero A) (f_zero A) 1 False (?s @ ''.'' @ rest) =
      (fst (makeFloat_loop A 1 (f_zero A) (f_zero A) 1 False ?s), ''.'' @ rest)"
    by (rule makeFloat_loop_append[OF all _ cnt]) simp_all
  with m have mf: "makeFloat A (?s @ ''.'' @ rest) = (fst (makeFloat A ?s), ''.'' @ rest)"
    by (simp add: makeFloat_def)
  have ne: "snd (makeFloat A (?s @ ''.'' @ rest)) \<noteq> ?s @ ''.'' @ rest"
    unfolding mf by simp
  have "tokenizeNumbers A (?s @ ''.'' @ rest) cp =
      Inr (fst (makeFloat A ?s), ''.'' @ rest, cp)"
    using tokenizeNumbers_number[of "?s @ ''.'' @ rest" "?s @ ''.'' @ rest" A cp] m ne mf
    by (simp add: skip_spaces_id)
  with mf show ?thesis by simp
qed

theorem second_decimal_point_stops_witness:
  "list_all isDigit ''12'' \<and> list_all isDigit ''3'' \<and>
   makeFloat_loop exact_arith 1 12 3 10 True ''.5'' = (123 / 10, ''.5'') \<and>
   makeFloat exact_arith ''12.3.5'' = (123 / 10, ''.5'') \<and>
   tokenizeNumbers exact_arith ''12.3.5'' 0 = Inr (123 / 10, ''.5'', 0)"
proof -
  have d: "list_all isDigit ''12''" "list_all isDigit ''3''"
    by (simp_all add: isDigit_def)
  have v: "fst (makeFloat exact_arith ''12.3'') = 123 / 10"
    by (simp add: makeFloat_def makeFloat_value_def exact_arith_def isDigit_def toDigit_def)
  have w: "makeFloat_value exact_arith 1 12 3 10 = 123 / 10"
    by (simp add: makeFloat_value_def exact_arith_def)
  from second_decimal_point_stops[OF d, of exact_arith 1 12 3 10 "''5''" 0] v d w show ?thesis
    by simp
qed


subsection \<open>Two leading minus signs\<close>

lemma makeFloat_loop_sign:
  "\<exists>X. \<forall>sign. fst (makeFloat_loop A sign b a dv fr eq) = f_mul A (f_of_int A sign) X"
proof (induction eq arbitrary: b a dv fr)
  case Nil
  show ?case by (simp add: makeFloat_value_def) blast
next
  case (Cons c eq)
  consider (frac) "isDigit c" "fr" | (int) "isDigit c" "\<not> fr"
    | (point) "\<not> isDigit c" "c = CHR ''.''" "\<not> fr"
    | (stop) "\<not> isDigit c" "c = CHR ''.'' \<longrightarrow> fr"
    by blast
  then show ?case
  proof cases
    case frac
    from Cons.IH[of b "f_add A (f_mul A a (f_of_int A 10)) (f_of_int A (toDigit c))" "dv * 10" fr]
    show ?thesis using frac by simp
  next
    case int
    from Cons.IH[of "f_add A (f_mul A b (f_of_int A 10)) (f_of_int A (toDigit c))" a dv fr]
    show ?thesis using int by simp
  next
    case point
    from Cons.IH[of b a dv True] show ?thesis using point by simp
  next
    case stop
    then have "fst (makeFloat_loop A sign b a dv fr (c # eq)) =
        f_mul A (f_of_int A sign) (f_add A b (f_div A a (f_of_int A (sint dv))))" for sign
      by (auto simp: makeFloat_value_def)
    then show ?thesis by blast
  qed
qed

lemma makeFloat_loop_digits:
  "list_all isDigit d \<Longrightarrow>
   makeFloat_loop A sign b a dv fr d = (fst (makeFloat_loop A sign b a dv fr d), [])"
proof -
  assume d: "list_all isDigit d"
  then have "CHR ''.'' \<notin> set d" by (auto simp: list_all_iff)
  moreover from this have "count_list d CHR ''.'' \<le> 1" by (simp add: count_list_0_iff)
  moreover from d have "list_all (\<lambda>c. isDigit c \<or> c = CHR ''.'') d" by (auto simp: list_all_iff)
  ultimately show ?thesis
    using makeFloat_loop_append[of d fr "[]" A sign b a dv] by simp
qed

lemma digits_literal:
  assumes "list_all isDigit d" "d \<noteq> []"
  shows "literal d"
proof -
  from assms(1) have "CHR ''.'' \<notin> set d" by (auto simp: list_all_iff)
  then have "count_list d CHR ''.'' \<le> 1" by (simp add: count_list_0_iff)
  moreover from assms(1) have "list_all (\<lambda>c. isDigit c \<or> c = CHR ''.'') d"
    by (auto simp: list_all_iff)
  ultimately show ?thesis using assms(2) by (simp add: literal_def)
qed

lemma solve_number:
  "tokenizeNumbers A eq 0 = Inr (v, [], 0) \<Longrightarrow> solve A eq = Inr (f_of_d A (d_of_f A v))"
  by (simp add: solve_def tokenizeExpression.simps[of A eq] tokenizeMulDiv.simps[of A eq]
      tokenizeMulDiv_loop_stop tokenizeExpression_loop_stop)

text \<open>
  Claim C10. For a digit string \<open>d\<close>, evaluating \<open>--d\<close> succeeds: \<open>tokenizeNumbers\<close> takes
  the first minus as the unary sign, \<open>makeFloat\<close> takes the second as the sign of the
  number, and the result is the value \<open>makeFloat\<close> gives \<open>-d\<close>, multiplied by \<open>-1\<close>. In an
  arithmetic where negating twice is multiplying by \<open>1\<close>, this is the value of \<open>d\<close> itself
  (\<open>d\<close> not empty).
\<close>

theorem double_minus_cancels:
  assumes "list_all isDigit d"
  shows "solve A (''--'' @ d) =
      Inr (f_of_d A (d_of_f A (f_mul A (fst (makeFloat A (CHR ''-'' # d))) (f_of_int A (- 1))))) \<and>
    (d \<noteq> [] \<and>
     (\<forall>x. f_mul A (f_mul A (f_of_int A (- 1)) x) (f_of_int A (- 1)) = f_mul A (f_of_int A 1) x) \<longrightarrow>
     solve A (''--'' @ d) = solve A d \<and> (\<exists>v. solve A d = Inr v))"
proof (intro conjI impI)
  let ?v = "fst (makeFloat A (CHR ''-'' # d))"
  have "makeFloat A (CHR ''-'' # d) = (?v, [])"
    using makeFloat_loop_digits[OF assms, of A "- 1" "f_zero A" "f_zero A" 1 False]
    by (simp add: makeFloat_def)
  then have mf: "snd (makeFloat A (CHR ''-'' # d)) = []"
    by (metis snd_conv)
  have "tokenizeNumbers A (''--'' @ d) 0 = Inr (f_mul A ?v (f_of_int A (- 1)), [], 0)"
    using tokenizeNumbers_number[of "CHR ''-'' # d" "''--'' @ d" A 0] mf by simp
  then show 1: "solve A (''--'' @ d) = Inr (f_of_d A (d_of_f A (f_mul A ?v (f_of_int A (- 1)))))"
    by (rule solve_number)
  assume h: "d \<noteq> [] \<and>
     (\<forall>x. f_mul A (f_mul A (f_of_int A (- 1)) x) (f_of_int A (- 1)) = f_mul A (f_of_int A 1) x)"
  then obtain c cs where d: "d = c # cs" by (cases d) auto
  with assms have c: "isDigit c" by simp
  then have cm: "c \<noteq> CHR ''-''" by auto
  have l: "literal d"
    using assms h by (simp add: digits_literal)
  have "tokenizeNumbers A (d @ []) 0 = Inr (fst (makeFloat A d), [], 0)"
    by (rule tokenizeNumbers_literal[OF l]) simp_all
  then have 2: "solve A d = Inr (f_of_d A (d_of_f A (fst (makeFloat A d))))"
    using solve_number[of A d] by simp
  from makeFloat_loop_sign[of A "f_zero A" "f_zero A" 1 False d] obtain X where
    X: "\<And>sign. fst (makeFloat_loop A sign (f_zero A) (f_zero A) 1 False d) = f_mul A (f_of_int A sign) X"
    by blast
  have "?v = f_mul A (f_of_int A (- 1)) X"
    using X[of "- 1"] by (simp add: makeFloat_def)
  moreover have "fst (makeFloat A d) = f_mul A (f_of_int A 1) X"
    using X[of 1] cm by (simp add: makeFloat_def d)
  ultimately have "f_mul A ?v (f_of_int A (- 1)) = fst (makeFloat A d)"
    using h by simp
  with 1 2 show "solve A (''--'' @ d) = solve A d" by simp
  from 2 show "\<exists>v. solve A d = Inr v" by blast
qed

theorem double_minus_cancels_witness:
  "list_all isDigit ''42'' \<and> solve exact_arith ''--42'' = Inr 42 \<and>
   solve exact_arith ''--42'' = solve exact_arith ''42'' \<and> solve exact_arith ''42'' = Inr 42"
proof -
  have d: "list_all isDigit ''42''"
    by (simp add: isDigit_def)
  have v: "fst (makeFloat exact_arith ''-42'') = - 42"
    by (simp add: makeFloat_def makeFloat_value_def exact_arith_def isDigit_def toDigit_def)
  have law: "\<forall>x. f_mul exact_arith (f_mul exact_arith (f_of_int exact_arith (- 1)) x)
      (f_of_int exact_arith (- 1)) = f_mul exact_arith (f_of_int exact_arith 1) x"
    by (simp add: exact_arith_def)
  have e: "f_of_d exact_arith (d_of_f exact_arith (f_mul exact_arith (- 42) (f_of_int exact_arith (- 1)))) = 42"
    by (simp add: exact_arith_def)
  from double_minus_cancels[OF d, of exact_arith] v law e d show ?thesis
    by auto
qed

subsection \<open>Characters after the cursor returned are not looked into\<close>

lemma append_same_shorter: "length x \<le> length r \<Longrightarrow> x = q @ r \<Longrightarrow> q = [] \<and> x = r"
  by (cases q) auto

lemma suffix_append_same: "suffix x r \<Longrightarrow> x = q @ r \<Longrightarrow> q = [] \<and> x = r"
  using append_same_shorter suffix_length_le by blast

lemma suffix_not_append_Cons: "suffix x r0 \<Longrightarrow> x \<noteq> q @ c # r0"
  using suffix_length_le by fastforce

lemma skip_spaces_local: "skip_spaces (p @ r) = p1 @ r \<Longrightarrow> skip_spaces p = p1"
proof (induction p)
  case Nil
  with suffix_append_same[OF suffix_skip_spaces[of r], of p1] show ?case by simp
next
  case (Cons c p)
  then show ?case by (cases "c = CHR '' ''") auto
qed

lemma makeFloat_loop_stay:
  "makeFloat_loop A sign b a dv fr r = (v, q @ r) \<Longrightarrow>
   q = [] \<and> v = makeFloat_value A sign b a dv"
proof (cases r)
  case Nil
  assume "makeFloat_loop A sign b a dv fr r = (v, q @ r)"
  with Nil show ?thesis by simp
next
  case (Cons c r0)
  assume h: "makeFloat_loop A sign b a dv fr r = (v, q @ r)"
  have *: "snd (makeFloat_loop A sign b' a' dv' fr' r0) \<noteq> q @ c # r0" for b' a' dv' fr'
    by (rule suffix_not_append_Cons[OF suffix_makeFloat_loop])
  from h * show ?thesis
    unfolding Cons by (auto split: if_splits dest: arg_cong[where f = snd])
qed


lemma makeFloat_loop_local:
  "makeFloat_loop A sign b a dv fr (p @ r) = (v, q @ r) \<Longrightarrow>
   makeFloat_loop A sign b a dv fr p = (v, q)"
proof (induction p arbitrary: b a dv fr)
  case Nil
  with makeFloat_loop_stay[of A sign b a dv fr r v q] show ?case by simp
next
  case (Cons c p)
  then show ?case by (auto split: if_splits)
qed

lemma makeFloat_local:
  assumes "makeFloat A (p @ r) = (v, q @ r)"
  shows "makeFloat A p = (v, q)"
proof (cases p)
  case Nil
  show ?thesis
  proof (cases "peek r = CHR ''-''")
    case True
    then obtain r0 where r: "r = CHR ''-'' # r0" by (cases r) auto
    from assms Nil r have "snd (makeFloat_loop A (- 1) (f_zero A) (f_zero A) 1 False r0) = q @ CHR ''-'' # r0"
      by (simp add: makeFloat_def)
    with suffix_not_append_Cons[OF suffix_makeFloat_loop, of A "- 1" "f_zero A" "f_zero A" 1 False r0 q "CHR ''-''"]
    show ?thesis by simp
  next
    case False
    with assms Nil have "makeFloat_loop A 1 (f_zero A) (f_zero A) 1 False r = (v, q @ r)"
      by (simp add: makeFloat_def)
    from makeFloat_loop_stay[OF this] Nil show ?thesis
      by (simp add: makeFloat_def)
  qed
next
  case (Cons c p')
  with assms show ?thesis
    by (auto simp: makeFloat_def dest: makeFloat_loop_local split: if_splits)
qed


lemma suffix_split: "suffix (q @ r) x \<Longrightarrow> \<exists>p'. x = p' @ r"
  by (auto simp: suffix_def)

lemma tokenizeNumbers_cases:
  assumes "tokenizeNumbers A eq cp = Inr (v, eq', cp')"
    and "eq2 = (if peek (skip_spaces eq) = CHR ''-'' then tl (skip_spaces eq) else skip_spaces eq)"
  obtains (paren) calculated eq3 where "peek eq2 = CHR ''(''"
      "tokenizeExpression A (tl eq2) (cp + 1) = Inr (calculated, eq3, cp + 1)"
      "peek eq3 = CHR '')''" "eq' = tl eq3" "cp' = cp"
      "v = (if peek (skip_spaces eq) = CHR ''-'' then f_mul A calculated (f_of_int A (- 1))
            else calculated)"
    | (number) "peek eq2 \<noteq> CHR ''(''" "eq' = snd (makeFloat A eq2)" "eq' \<noteq> eq2" "cp' = cp"
      "v = (if peek (skip_spaces eq) = CHR ''-'' then f_mul A (fst (makeFloat A eq2)) (f_of_int A (- 1))
            else fst (makeFloat A eq2))"
proof (cases "peek eq2 = CHR ''(''")
  case True
  with assms obtain calculated eq3 cp3 where
    te: "tokenizeExpression A (tl eq2) (cp + 1) = Inr (calculated, eq3, cp3)"
    by (subst (asm) tokenizeNumbers.simps) (auto simp: Let_def split: sum.splits)
  from tok_depth(4)[OF te] have cp3: "cp3 = cp + 1" .
  from assms(1) tokenizeNumbers_paren[OF assms(2) True te] cp3
  have "peek eq3 = CHR '')''" "eq' = tl eq3" "cp' = cp"
      "v = (if peek (skip_spaces eq) = CHR ''-'' then f_mul A calculated (f_of_int A (- 1))
            else calculated)"
    by (auto split: if_splits)
  with paren True te cp3 show ?thesis by blast
next
  case False
  from assms(1) tokenizeNumbers_number[OF assms(2) False, of A cp]
  have "eq' = snd (makeFloat A eq2)" "eq' \<noteq> eq2" "cp' = cp"
      "v = (if peek (skip_spaces eq) = CHR ''-'' then f_mul A (fst (makeFloat A eq2)) (f_of_int A (- 1))
            else fst (makeFloat A eq2))"
    by (auto split: if_splits)
  with number False show ?thesis by blast
qed

lemma tokenizeMulDiv_cases:
  assumes "tokenizeMulDiv A eq cp = Inr (v, eq', cp')"
  obtains first eq1 where "tokenizeNumbers A eq cp = Inr (first, eq1, cp)"
    "tokenizeMulDiv_loop A first eq1 cp = Inr (v, eq', cp')"
proof -
  from assms obtain first eq1 cp1 where tn: "tokenizeNumbers A eq cp = Inr (first, eq1, cp1)"
    and l: "tokenizeMulDiv_loop A first eq1 cp1 = Inr (v, eq', cp')"
    by (subst (asm) tokenizeMulDiv.simps) (auto split: sum.splits)
  from tok_depth(1)[OF tn] tn l that show ?thesis by blast
qed

lemma tokenizeExpression_cases:
  assumes "tokenizeExpression A eq cp = Inr (v, eq', cp')"
  obtains first eq1 where "tokenizeMulDiv A eq cp = Inr (first, eq1, cp)"
    "tokenizeExpression_loop A (d_of_f A first) eq1 cp = Inr (v, eq', cp')"
proof -
  from assms obtain first eq1 cp1 where tn: "tokenizeMulDiv A eq cp = Inr (first, eq1, cp1)"
    and l: "tokenizeExpression_loop A (d_of_f A first) eq1 cp1 = Inr (v, eq', cp')"
    by (subst (asm) tokenizeExpression.simps) (auto split: sum.splits)
  from tok_depth(2)[OF tn] tn l that show ?thesis by blast
qed

lemma tokenizeMulDiv_loop_cases:
  assumes "tokenizeMulDiv_loop A first eq cp = Inr (v, eq', cp')"
  obtains (stop) "peek (skip_spaces eq) \<noteq> CHR ''*''" "peek (skip_spaces eq) \<noteq> CHR ''/''"
      "v = first" "eq' = skip_spaces eq" "cp' = cp"
    | (mul) second eq2 where "peek (skip_spaces eq) = CHR ''*''"
      "tokenizeNumbers A (tl (skip_spaces eq)) cp = Inr (second, eq2, cp)"
      "tokenizeMulDiv_loop A (f_mul A first second) eq2 cp = Inr (v, eq', cp')"
    | (div) second eq2 where "peek (skip_spaces eq) = CHR ''/''"
      "tokenizeNumbers A (tl (skip_spaces eq)) cp = Inr (second, eq2, cp)"
      "f_neq A second (f_of_int A 0)"
      "tokenizeMulDiv_loop A (f_div A first second) eq2 cp = Inr (v, eq', cp')"
proof -
  consider "peek (skip_spaces eq) \<noteq> CHR ''*''" "peek (skip_spaces eq) \<noteq> CHR ''/''"
    | "peek (skip_spaces eq) = CHR ''*''" | "peek (skip_spaces eq) = CHR ''/''"
    by blast
  then show ?thesis
  proof cases
    case 1
    from assms tokenizeMulDiv_loop_stop[OF 1, of A first cp]
    have "v = first" "eq' = skip_spaces eq" "cp' = cp" by simp_all
    with stop 1 show ?thesis by blast
  next
    case 2
    with assms obtain second eq2 cp2 where
      tn: "tokenizeNumbers A (tl (skip_spaces eq)) cp = Inr (second, eq2, cp2)"
      by (auto simp: tokenizeMulDiv_loop.simps[of A first eq cp] Let_def split: sum.splits)
    from tok_depth(1)[OF tn] have "cp2 = cp" .
    with assms tokenizeMulDiv_loop_mul[OF 2 tn, of first] mul[OF 2] tn show ?thesis by simp
  next
    case 3
    with assms obtain second eq2 cp2 where
      tn: "tokenizeNumbers A (tl (skip_spaces eq)) cp = Inr (second, eq2, cp2)"
      by (auto simp: tokenizeMulDiv_loop.simps[of A first eq cp] Let_def split: sum.splits)
    from tok_depth(1)[OF tn] have "cp2 = cp" .
    with assms tokenizeMulDiv_loop_div[OF 3 tn, of first] div[OF 3] tn show ?thesis
      by (auto split: if_splits)
  qed
qed

lemma tokenizeExpression_loop_cases:
  assumes "tokenizeExpression_loop A first eq cp = Inr (v, eq', cp')"
  obtains (stop) "peek (skip_spaces eq) \<noteq> CHR ''+''" "peek (skip_spaces eq) \<noteq> CHR ''-''"
      "v = f_of_d A first" "eq' = skip_spaces eq" "cp' = cp"
    | (add) second eq2 where "peek (skip_spaces eq) = CHR ''+''"
      "tokenizeMulDiv A (tl (skip_spaces eq)) cp = Inr (second, eq2, cp)"
      "tokenizeExpression_loop A (d_add A first (d_of_f A second)) eq2 cp = Inr (v, eq', cp')"
    | (sub) second eq2 where "peek (skip_spaces eq) = CHR ''-''"
      "tokenizeMulDiv A (tl (skip_spaces eq)) cp = Inr (second, eq2, cp)"
      "tokenizeExpression_loop A (d_sub A first (d_of_f A second)) eq2 cp = Inr (v, eq', cp')"
proof -
  consider "peek (skip_spaces eq) \<noteq> CHR ''+''" "peek (skip_spaces eq) \<noteq> CHR ''-''"
    | "peek (skip_spaces eq) = CHR ''+''" | "peek (skip_spaces eq) = CHR ''-''"
    by blast
  then show ?thesis
  proof cases
    case 1
    from assms tokenizeExpression_loop_stop[OF 1, of A first cp]
    have "v = f_of_d A first" "eq' = skip_spaces eq" "cp' = cp" by simp_all
    with stop 1 show ?thesis by blast
  next
    case 2
    with assms obtain second eq2 cp2 where
      tn: "tokenizeMulDiv A (tl (skip_spaces eq)) cp = Inr (second, eq2, cp2)"
      by (auto simp: tokenizeExpression_loop.simps[of A first eq cp] Let_def split: sum.splits)
    from tok_depth(2)[OF tn] have "cp2 = cp" .
    with assms tokenizeExpression_loop_add[OF 2 tn, of first] add[OF 2] tn show ?thesis by simp
  next
    case 3
    with assms obtain second eq2 cp2 where
      tn: "tokenizeMulDiv A (tl (skip_spaces eq)) cp = Inr (second, eq2, cp2)"
      by (auto simp: tokenizeExpression_loop.simps[of A first eq cp] Let_def split: sum.splits)
    from tok_depth(2)[OF tn] have "cp2 = cp" .
    with assms tokenizeExpression_loop_sub[OF 3 tn, of first] sub[OF 3] tn show ?thesis by simp
  qed
qed


lemma peek_append_neq: "peek (p @ r) \<noteq> c \<Longrightarrow> c \<noteq> CHR 0x00 \<Longrightarrow> peek p \<noteq> c"
  by (cases p) auto

lemma peek_eq_Cons: "peek x = c \<Longrightarrow> c \<noteq> CHR 0x00 \<Longrightarrow> x = c # tl x"
  by (cases x) auto

lemma tokenizeMulDiv_intro:
  "tokenizeNumbers A eq cp = Inr (first, eq1, cp1) \<Longrightarrow>
   tokenizeMulDiv A eq cp = tokenizeMulDiv_loop A first eq1 cp1"
  by (simp add: tokenizeMulDiv.simps[of A eq cp])

lemma tokenizeExpression_intro:
  "tokenizeMulDiv A eq cp = Inr (first, eq1, cp1) \<Longrightarrow>
   tokenizeExpression A eq cp = tokenizeExpression_loop A (d_of_f A first) eq1 cp1"
  by (simp add: tokenizeExpression.simps[of A eq cp])

lemma tok_local:
  "eq = p @ r \<Longrightarrow> tokenizeNumbers A eq cp = Inr (v, q @ r, cp') \<Longrightarrow>
     tokenizeNumbers A p cp = Inr (v, q, cp')"
  "eq = p @ r \<Longrightarrow> tokenizeMulDiv A eq cp = Inr (v, q @ r, cp') \<Longrightarrow>
     tokenizeMulDiv A p cp = Inr (v, q, cp')"
  "eq = p @ r \<Longrightarrow> tokenizeMulDiv_loop A first eq cp = Inr (v, q @ r, cp') \<Longrightarrow>
     tokenizeMulDiv_loop A first p cp = Inr (v, q, cp')"
  "eq = p @ r \<Longrightarrow> tokenizeExpression A eq cp = Inr (v, q @ r, cp') \<Longrightarrow>
     tokenizeExpression A p cp = Inr (v, q, cp')"
  "eq = p @ r \<Longrightarrow> tokenizeExpression_loop A dfirst eq cp = Inr (v, q @ r, cp') \<Longrightarrow>
     tokenizeExpression_loop A dfirst p cp = Inr (v, q, cp')"
proof (induct A eq cp and A eq cp and A first eq cp and A eq cp and A dfirst eq cp
    arbitrary: p q v cp' and p q v cp' and p q v cp' and p q v cp' and p q v cp'
    rule: tokenizeNumbers_tokenizeMulDiv_tokenizeMulDiv_loop_tokenizeExpression_tokenizeExpression_loop.induct)
  case (1 A eq cp)
  define e2 where "e2 = (if peek (skip_spaces eq) = CHR ''-'' then tl (skip_spaces eq) else skip_spaces eq)"
  have e1: "skip_spaces eq = (if peek (skip_spaces eq) = CHR ''-'' then CHR ''-'' # e2 else e2)"
    using peek_eq_Cons[of "skip_spaces eq" "CHR ''-''"] by (auto simp: e2_def)
  from "1.prems"(2) e2_def show ?case
  proof (cases rule: tokenizeNumbers_cases)
    case (paren calculated eq3)
    from paren(3,4) peek_eq_Cons[of eq3 "CHR '')''"] have eq3: "eq3 = (CHR '')'' # q) @ r" by simp
    from tok_suffix(4)[OF paren(2)] eq3 obtain t where t: "tl e2 = t @ r"
      using suffix_split[of "CHR '')'' # q" r "tl e2"] by (auto simp: strict_suffix_def)
    from paren(1) peek_eq_Cons[of e2 "CHR ''(''"] t have e2: "e2 = (CHR ''('' # t) @ r" by simp
    define p1 where "p1 = (if peek (skip_spaces eq) = CHR ''-'' then CHR ''-'' # CHR ''('' # t
                           else CHR ''('' # t)"
    from e1 e2 have "skip_spaces (p @ r) = p1 @ r" unfolding "1.prems"(1) p1_def by auto
    then have sp: "skip_spaces p = p1" by (rule skip_spaces_local)
    have neg: "peek (skip_spaces p) = CHR ''-'' \<longleftrightarrow> peek (skip_spaces eq) = CHR ''-''"
      unfolding sp p1_def by auto
    have p2: "CHR ''('' # t = (if peek (skip_spaces p) = CHR ''-'' then tl (skip_spaces p) else skip_spaces p)"
      unfolding neg unfolding sp p1_def by auto
    from paren(2) eq3 have "tokenizeExpression A (tl e2) (cp + 1) = Inr (calculated, (CHR '')'' # q) @ r, cp + 1)"
      by simp
    from "1.hyps"[OF refl refl e2_def paren(1) t this]
    have "tokenizeExpression A (tl (CHR ''('' # t)) (cp + 1) = Inr (calculated, CHR '')'' # q, cp + 1)"
      by simp
    from tokenizeNumbers_paren[OF p2 _ this] paren(5,6) neg show ?thesis by simp
  next
    case number
    from suffix_makeFloat[of A e2] number(2) obtain p2 where e2: "e2 = p2 @ r"
      using suffix_split[of q r e2] by auto
    define p1 where "p1 = (if peek (skip_spaces eq) = CHR ''-'' then CHR ''-'' # p2 else p2)"
    from e1 e2 have "skip_spaces (p @ r) = p1 @ r" unfolding "1.prems"(1) p1_def by auto
    then have sp: "skip_spaces p = p1" by (rule skip_spaces_local)
    have nm: "peek p2 \<noteq> CHR ''-''" if "peek (skip_spaces eq) \<noteq> CHR ''-''"
      using that e1 e2 peek_append_neq[of p2 r "CHR ''-''"] by simp
    have neg: "peek (skip_spaces p) = CHR ''-'' \<longleftrightarrow> peek (skip_spaces eq) = CHR ''-''"
      unfolding sp p1_def using nm by auto
    have p2: "p2 = (if peek (skip_spaces p) = CHR ''-'' then tl (skip_spaces p) else skip_spaces p)"
      unfolding neg unfolding sp p1_def by auto
    have np: "peek p2 \<noteq> CHR ''(''"
      using number(1) e2 peek_append_neq[of p2 r "CHR ''(''"] by simp
    have "makeFloat A (p2 @ r) = (fst (makeFloat A (p2 @ r)), q @ r)"
      using number(2) e2 by (metis prod.collapse)
    then have mf: "makeFloat A p2 = (fst (makeFloat A (p2 @ r)), q)"
      by (rule makeFloat_local)
    from number(3) e2 have "q \<noteq> p2" by auto
    with tokenizeNumbers_number[OF p2 np, of A cp] mf number(4,5) neg e2 show ?thesis by simp
  qed
next
  case (2 A eq cp)
  from "2.prems"(2) obtain first eq1 where
    tn: "tokenizeNumbers A eq cp = Inr (first, eq1, cp)"
    and l: "tokenizeMulDiv_loop A first eq1 cp = Inr (v, q @ r, cp')"
    by (rule tokenizeMulDiv_cases)
  from tok_suffix(3)[OF l] obtain p1 where p1: "eq1 = p1 @ r"
    using suffix_split by blast
  from "2.hyps"(1)[OF "2.prems"(1) tn[unfolded p1]]
  have a: "tokenizeNumbers A p cp = Inr (first, p1, cp)" .
  from "2.hyps"(2)[OF tn refl refl p1 l]
  have "tokenizeMulDiv_loop A first p1 cp = Inr (v, q, cp')" .
  with tokenizeMulDiv_intro[OF a] show ?case by simp
next
  case (3 A first eq cp)
  from "3.prems"(2) show ?case
  proof (cases rule: tokenizeMulDiv_loop_cases)
    case stop
    from stop(4) have sp: "skip_spaces p = q"
      unfolding "3.prems"(1) by (rule skip_spaces_local[OF sym])
    from stop(1,2,4) have "peek q \<noteq> CHR ''*''" "peek q \<noteq> CHR ''/''"
      using peek_append_neq[of q r] by auto
    with sp stop(3,5) tokenizeMulDiv_loop_stop[of p A first cp] show ?thesis by simp
  next
    case (mul second eq2)
    from tok_suffix(3)[OF mul(3)] obtain p2 where p2: "eq2 = p2 @ r"
      using suffix_split by blast
    from tok_suffix(1)[OF mul(2)] p2 obtain t where t: "tl (skip_spaces eq) = t @ r"
      using suffix_split[of p2 r] by (auto simp: strict_suffix_def)
    from peek_eq_Cons[OF mul(1)] t have "skip_spaces (p @ r) = (CHR ''*'' # t) @ r"
      unfolding "3.prems"(1) by simp
    then have sp: "skip_spaces p = CHR ''*'' # t" by (rule skip_spaces_local)
    have xa: "\<not> (peek (skip_spaces eq) \<noteq> CHR ''*'' \<and> peek (skip_spaces eq) \<noteq> CHR ''/'')"
      using mul(1) by simp
    have ne: "peek (skip_spaces eq) \<noteq> CHR ''/''" using mul(1) by simp
    from "3.hyps"(1)[OF refl refl xa t mul(2)[unfolded p2]]
    have a: "tokenizeNumbers A t cp = Inr (second, p2, cp)" .
    from "3.hyps"(2)[OF refl refl xa mul(2) refl refl ne p2 mul(3)]
    have "tokenizeMulDiv_loop A (f_mul A first second) p2 cp = Inr (v, q, cp')" .
    with tokenizeMulDiv_loop_mul[of p A cp second p2 cp first] a sp show ?thesis by simp
  next
    case (div second eq2)
    from tok_suffix(3)[OF div(4)] obtain p2 where p2: "eq2 = p2 @ r"
      using suffix_split by blast
    from tok_suffix(1)[OF div(2)] p2 obtain t where t: "tl (skip_spaces eq) = t @ r"
      using suffix_split[of p2 r] by (auto simp: strict_suffix_def)
    from peek_eq_Cons[OF div(1)] t have "skip_spaces (p @ r) = (CHR ''/'' # t) @ r"
      unfolding "3.prems"(1) by simp
    then have sp: "skip_spaces p = CHR ''/'' # t" by (rule skip_spaces_local)
    have xa: "\<not> (peek (skip_spaces eq) \<noteq> CHR ''*'' \<and> peek (skip_spaces eq) \<noteq> CHR ''/'')"
      using div(1) by simp
    have ne: "\<not> peek (skip_spaces eq) \<noteq> CHR ''/''" using div(1) by simp
    have nz: "\<not> \<not> f_neq A second (f_of_int A 0)" using div(3) by simp
    from "3.hyps"(1)[OF refl refl xa t div(2)[unfolded p2]]
    have a: "tokenizeNumbers A t cp = Inr (second, p2, cp)" .
    from "3.hyps"(3)[OF refl refl xa div(2) refl refl ne nz p2 div(4)]
    have "tokenizeMulDiv_loop A (f_div A first second) p2 cp = Inr (v, q, cp')" .
    with tokenizeMulDiv_loop_div[of p A cp second p2 cp first] a sp div(3) show ?thesis by simp
  qed
next
  case (4 A eq cp)
  from "4.prems"(2) obtain first eq1 where
    tn: "tokenizeMulDiv A eq cp = Inr (first, eq1, cp)"
    and l: "tokenizeExpression_loop A (d_of_f A first) eq1 cp = Inr (v, q @ r, cp')"
    by (rule tokenizeExpression_cases)
  from tok_suffix(5)[OF l] obtain p1 where p1: "eq1 = p1 @ r"
    using suffix_split by blast
  from "4.hyps"(1)[OF "4.prems"(1) tn[unfolded p1]]
  have a: "tokenizeMulDiv A p cp = Inr (first, p1, cp)" .
  from "4.hyps"(2)[OF tn refl refl p1 l]
  have "tokenizeExpression_loop A (d_of_f A first) p1 cp = Inr (v, q, cp')" .
  with tokenizeExpression_intro[OF a] show ?case by simp
next
  case (5 A first eq cp)
  from "5.prems"(2) show ?case
  proof (cases rule: tokenizeExpression_loop_cases)
    case stop
    from stop(4) have sp: "skip_spaces p = q"
      unfolding "5.prems"(1) by (rule skip_spaces_local[OF sym])
    from stop(1,2,4) have "peek q \<noteq> CHR ''+''" "peek q \<noteq> CHR ''-''"
      using peek_append_neq[of q r] by auto
    with sp stop(3,5) tokenizeExpression_loop_stop[of p A first cp] show ?thesis by simp
  next
    case (add second eq2)
    from tok_suffix(5)[OF add(3)] obtain p2 where p2: "eq2 = p2 @ r"
      using suffix_split by blast
    from tok_suffix(2)[OF add(2)] p2 obtain t where t: "tl (skip_spaces eq) = t @ r"
      using suffix_split[of p2 r] by (auto simp: strict_suffix_def)
    from peek_eq_Cons[OF add(1)] t have "skip_spaces (p @ r) = (CHR ''+'' # t) @ r"
      unfolding "5.prems"(1) by simp
    then have sp: "skip_spaces p = CHR ''+'' # t" by (rule skip_spaces_local)
    have xa: "\<not> (peek (skip_spaces eq) \<noteq> CHR ''+'' \<and> peek (skip_spaces eq) \<noteq> CHR ''-'')"
      using add(1) by simp
    from "5.hyps"(1)[OF refl refl xa t add(2)[unfolded p2]]
    have a: "tokenizeMulDiv A t cp = Inr (second, p2, cp)" .
    from "5.hyps"(2)[OF refl refl xa add(2) refl refl add(1) p2 add(3)]
    have "tokenizeExpression_loop A (d_add A first (d_of_f A second)) p2 cp = Inr (v, q, cp')" .
    with tokenizeExpression_loop_add[of p A cp second p2 cp first] a sp show ?thesis by simp
  next
    case (sub second eq2)
    from tok_suffix(5)[OF sub(3)] obtain p2 where p2: "eq2 = p2 @ r"
      using suffix_split by blast
    from tok_suffix(2)[OF sub(2)] p2 obtain t where t: "tl (skip_spaces eq) = t @ r"
      using suffix_split[of p2 r] by (auto simp: strict_suffix_def)
    from peek_eq_Cons[OF sub(1)] t have "skip_spaces (p @ r) = (CHR ''-'' # t) @ r"
      unfolding "5.prems"(1) by simp
    then have sp: "skip_spaces p = CHR ''-'' # t" by (rule skip_spaces_local)
    have xa: "\<not> (peek (skip_spaces eq) \<noteq> CHR ''+'' \<and> peek (skip_spaces eq) \<noteq> CHR ''-'')"
      using sub(1) by simp
    have ne: "peek (skip_spaces eq) \<noteq> CHR ''+''" using sub(1) by simp
    from "5.hyps"(1)[OF refl refl xa t sub(2)[unfolded p2]]
    have a: "tokenizeMulDiv A t cp = Inr (second, p2, cp)" .
    from "5.hyps"(3)[OF refl refl xa sub(2) refl refl ne p2 sub(3)]
    have "tokenizeExpression_loop A (d_sub A first (d_of_f A second)) p2 cp = Inr (v, q, cp')" .
    with tokenizeExpression_loop_sub[of p A cp second p2 cp first] a sp show ?thesis by simp
  qed
qed


text \<open>
  Claim C6. When the top-level call of \<open>tokenizeExpression\<close> returns a value, \<open>solve\<close>
  returns that value whatever the cursor it leaves: no check is made that the input has
  been consumed. The characters left are not looked into: the input is the consumed prefix
  followed by them, and the value is the one \<open>solve\<close> computes for the consumed prefix
  alone.
\<close>

theorem trailing_input_ignored:
  assumes "tokenizeExpression A eq 0 = Inr (v, rest, cp)"
  shows "solve A eq = Inr v \<and>
    (\<exists>p. eq = p @ rest \<and> tokenizeExpression A p 0 = Inr (v, [], 0) \<and> solve A p = Inr v)"
proof -
  from tok_depth(4)[OF assms] have cp: "cp = 0" .
  with assms have 1: "solve A eq = Inr v" by (simp add: solve_def)
  from tok_suffix(4)[OF assms] obtain p where p: "eq = p @ rest"
    by (auto simp: strict_suffix_def suffix_def)
  from assms cp have "tokenizeExpression A eq 0 = Inr (v, [] @ rest, 0)" by simp
  from tok_local(4)[OF p this] have 2: "tokenizeExpression A p 0 = Inr (v, [], 0)" .
  then have "solve A p = Inr v" by (simp add: solve_def)
  with 1 2 p show ?thesis by blast
qed

theorem trailing_input_ignored_witness:
  "tokenizeExpression exact_arith ''2*(3+4) 5 garbage'' 0 = Inr (14, ''5 garbage'', 0) \<and>
   solve exact_arith ''2*(3+4) 5 garbage'' = Inr 14 \<and>
   (\<exists>p. ''2*(3+4) 5 garbage'' = p @ ''5 garbage'' \<and>
        tokenizeExpression exact_arith p 0 = Inr (14, [], 0) \<and> solve exact_arith p = Inr 14)"
proof -
  have e: "tokenizeExpression exact_arith ''2*(3+4) 5 garbage'' 0 = Inr (14, ''5 garbage'', 0)"
    by code_simp
  from trailing_input_ignored[OF e] e show ?thesis by blast
qed

subsection \<open>The parenthesis counter is restored\<close>

text \<open>
  Claim C9. A call of \<open>tokenizeNumbers\<close> (Factor), \<open>tokenizeMulDiv\<close> (Term) or
  \<open>tokenizeExpression\<close> (Expression) that returns a value returns the parenthesis counter
  it was given. When \<open>tokenizeNumbers\<close> reads a parenthesised expression, the expression is
  evaluated with the counter incremented and comes back with it, the next character is the
  closing parenthesis, and the counter is decremented after it. Hence a top-level
  evaluation that returns a value returns the counter 0, and the final check of \<open>solve\<close>
  never fails: \<open>solve\<close> returns the error or the value of \<open>tokenizeExpression\<close> unchanged.
\<close>

theorem paren_depth_restored:
  "(tokenizeNumbers A eq cp = Inr (v, eq', cp') \<longrightarrow> cp' = cp) \<and>
   (tokenizeMulDiv A eq cp = Inr (v, eq', cp') \<longrightarrow> cp' = cp) \<and>
   (tokenizeExpression A eq cp = Inr (v, eq', cp') \<longrightarrow> cp' = cp) \<and>
   (eq2 = (if peek (skip_spaces eq) = CHR ''-'' then tl (skip_spaces eq) else skip_spaces eq) \<and>
    peek eq2 = CHR ''('' \<and> tokenizeNumbers A eq cp = Inr (v, eq', cp') \<longrightarrow>
      (\<exists>calculated eq3. tokenizeExpression A (tl eq2) (cp + 1) = Inr (calculated, eq3, cp + 1) \<and>
         peek eq3 = CHR '')'' \<and> eq' = tl eq3 \<and> cp' = cp + 1 - 1)) \<and>
   (tokenizeExpression A eq 0 = Inr (v, eq', cp') \<longrightarrow> cp' = 0 \<and> solve A eq = Inr v) \<and>
   (tokenizeExpression A eq 0 = Inl e \<longrightarrow> solve A eq = Inl e)"
proof -
  have "solve A eq = Inr v" if "tokenizeExpression A eq 0 = Inr (v, eq', cp')"
    using that tok_depth(4)[OF that] by (simp add: solve_def)
  moreover have "solve A eq = Inl e" if "tokenizeExpression A eq 0 = Inl e"
    using that by (simp add: solve_def)
  moreover have "\<exists>calculated eq3.
      tokenizeExpression A (tl eq2) (cp + 1) = Inr (calculated, eq3, cp + 1) \<and>
      peek eq3 = CHR '')'' \<and> eq' = tl eq3 \<and> cp' = cp + 1 - 1"
    if "eq2 = (if peek (skip_spaces eq) = CHR ''-'' then tl (skip_spaces eq) else skip_spaces eq)"
      and "peek eq2 = CHR ''(''" and "tokenizeNumbers A eq cp = Inr (v, eq', cp')"
    using that(3,1)
  proof (cases rule: tokenizeNumbers_cases)
    case (paren calculated eq3)
    then show ?thesis by auto
  next
    case number
    with that(2) show ?thesis by simp
  qed
  ultimately show ?thesis
    by (blast dest: tok_depth)
qed

theorem paren_depth_restored_witness:
  "tokenizeNumbers exact_arith ''(1+2)*3'' 5 = Inr (3, ''*3'', 5) \<and>
   tokenizeMulDiv exact_arith ''(1+2)*3'' 5 = Inr (9, [], 5) \<and>
   tokenizeExpression exact_arith ''((4))-(1+2)*3'' 5 = Inr (- 5, [], 5) \<and>
   (\<exists>calculated eq3. tokenizeExpression exact_arith ''1+2)*3'' (5 + 1) = Inr (calculated, eq3, 5 + 1) \<and>
      peek eq3 = CHR '')'' \<and> ''*3'' = tl eq3) \<and>
   tokenizeExpression exact_arith ''1+2)*3'' 6 = Inr (3, '')*3'', 6) \<and>
   tokenizeExpression exact_arith ''((4))-(1+2)*3'' 0 = Inr (- 5, [], 0) \<and>
   solve exact_arith ''((4))-(1+2)*3'' = Inr (- 5) \<and>
   tokenizeExpression exact_arith ''((4)-(1+2)*3'' 0 = Inl UnbalancedParentheses \<and>
   solve exact_arith ''((4)-(1+2)*3'' = Inl UnbalancedParentheses"
proof -
  have 1: "tokenizeNumbers exact_arith ''(1+2)*3'' 5 = Inr (3, ''*3'', 5)"
    by code_simp
  have 2: "tokenizeMulDiv exact_arith ''(1+2)*3'' 5 = Inr (9, [], 5)"
    by code_simp
  have 3: "tokenizeExpression exact_arith ''((4))-(1+2)*3'' 5 = Inr (- 5, [], 5)"
    by code_simp
  have 4: "tokenizeExpression exact_arith ''((4))-(1+2)*3'' 0 = Inr (- 5, [], 0)"
    by code_simp
  have 5: "tokenizeExpression exact_arith ''((4)-(1+2)*3'' 0 = Inl UnbalancedParentheses"
    by code_simp
  have 8: "tokenizeExpression exact_arith ''1+2)*3'' 6 = Inr (3, '')*3'', 6)"
    by code_simp
  from paren_depth_restored[of exact_arith "''((4))-(1+2)*3''" 0 "- 5" "[]" 0 "[]" UnbalancedParentheses] 4
  have 6: "solve exact_arith ''((4))-(1+2)*3'' = Inr (- 5)" by blast
  from paren_depth_restored[of exact_arith "''((4)-(1+2)*3''" 0 0 "[]" 0 "[]" UnbalancedParentheses] 5
  have 7: "solve exact_arith ''((4)-(1+2)*3'' = Inl UnbalancedParentheses" by blast
  from paren_depth_restored[of exact_arith "''(1+2)*3''" 5 3 "''*3''" 5 "''(1+2)*3''" UnbalancedParentheses] 1
  have 9: "\<exists>calculated eq3.
      tokenizeExpression exact_arith ''1+2)*3'' (5 + 1) = Inr (calculated, eq3, 5 + 1) \<and>
      peek eq3 = CHR '')'' \<and> ''*3'' = tl eq3"
    by simp
  from 1 2 3 4 5 6 7 8 9 show ?thesis by blast
qed

end
